theory Spec2Isabelle
  imports Complex_Main "HOL-Library.Finite_Map" "HOL-Library.Signed_Division"
begin

section \<open>Errors and panics\<close>

text \<open>
  Modelled from the spec: the error values of \<^verbatim>\<open>pkg/errors\<close>, a package of this
  repository whose source is not part of the files at hand. An error is an opaque message
  (\<open>Err\<close>), an error with a stack trace attached (\<open>Trace\<close>, which keeps the
  cause), or an error wrapped with a message that names the context (\<open>Annotatef\<close>,
  which keeps the cause as well).
\<close>

datatype error =
    Err string
  | Trace error
  | Annotatef error string

text \<open>
  A Go panic ends the function that raises it without a return value. The panics the
  code at hand can raise are a failed single-value type assertion \<^verbatim>\<open>v.(T)\<close>, an
  assignment to an entry of a nil map, and a field access through a nil pointer.
\<close>

datatype panic =
    TypeAssertionError string string  \<comment> \<open>dynamic type found, type asserted\<close>
  | NilMapAssignment
  | NilPointerDereference

section \<open>Runtime: the shared execution context\<close>

text \<open>
  The values of the embedded \<^verbatim>\<open>sync.Map\<close> have the static type \<^verbatim>\<open>any\<close>. A value
  is its dynamic type together with its payload; \<open>VNil\<close> is the nil interface value and
  \<open>VOther t\<close> a value of any other dynamic type \<open>t\<close>. The map itself is a partial
  function from keys to values: \<^verbatim>\<open>Load\<close> is a lookup, \<^verbatim>\<open>Store\<close> an update.
\<close>

datatype dyn =
    VString string
  | VBool bool
  | VInt int
  | VNil
  | VOther string

fun dyn_type :: "dyn \<Rightarrow> string" where
  "dyn_type (VString _) = ''string''"
| "dyn_type (VBool _) = ''bool''"
| "dyn_type (VInt _) = ''int''"
| "dyn_type VNil = ''nil''"
| "dyn_type (VOther t) = t"

type_synonym 'k sync_Map = "'k \<rightharpoonup> dyn"

definition LoadString :: "'k sync_Map \<Rightarrow> 'k \<Rightarrow> panic + (string \<times> bool)" where
  "LoadString r key =
     (case r key of
        None \<Rightarrow> Inr ('''', False)
      | Some valI \<Rightarrow>
          (case valI of
             VString s \<Rightarrow> Inr (s, True)
           | _ \<Rightarrow> Inl (TypeAssertionError (dyn_type valI) ''string'')))"

definition LoadBool :: "'k sync_Map \<Rightarrow> 'k \<Rightarrow> panic + (bool \<times> bool)" where
  "LoadBool r key =
     (case r key of
        None \<Rightarrow> Inr (False, False)
      | Some valI \<Rightarrow>
          (case valI of
             VBool b \<Rightarrow> Inr (b, True)
           | _ \<Rightarrow> Inl (TypeAssertionError (dyn_type valI) ''bool'')))"

definition LoadInt :: "'k sync_Map \<Rightarrow> 'k \<Rightarrow> panic + (int \<times> bool)" where
  "LoadInt r key =
     (case r key of
        None \<Rightarrow> Inr (0, False)
      | Some valI \<Rightarrow>
          (case valI of
             VInt n \<Rightarrow> Inr (n, True)
           | _ \<Rightarrow> Inl (TypeAssertionError (dyn_type valI) ''int'')))"

section \<open>float64 arithmetic\<close>

text \<open>
  A \<^verbatim>\<open>float64\<close> value is modelled by the real number it denotes. Every
  arithmetic operation computes the exact result and rounds it to the nearest number with
  a 53-bit significand, ties to the even significand (IEEE 754 binary64, the default
  rounding mode). Infinities, NaN, subnormal numbers and overflow are not modelled: the
  operands here are 64-bit integers and small constants, and no quotient has a zero
  divisor, so every result lies in the normal range.
\<close>

type_synonym float64 = real

fun ilog2 :: "nat \<Rightarrow> nat" where
  "ilog2 n = (if n < 2 then 0 else Suc (ilog2 (n div 2)))"

declare ilog2.simps [simp del]

definition pow2 :: "int \<Rightarrow> real" where
  "pow2 e = (if 0 \<le> e then 2 ^ nat e else 1 / 2 ^ nat (- e))"

text \<open>The binary exponent \<open>e\<close> of a positive number: \<open>2^e \<le> x < 2^(e+1)\<close>.\<close>

definition f64_exponent :: "real \<Rightarrow> int" where
  "f64_exponent x =
     (if 1 \<le> x then int (ilog2 (nat \<lfloor>x\<rfloor>))
      else (let b = int (ilog2 (nat \<lfloor>1 / x\<rfloor>))
            in if x * pow2 b = 1 then - b else - b - 1))"

definition round_half_even :: "real \<Rightarrow> int" where
  "round_half_even m =
     (let f = \<lfloor>m\<rfloor>; d = m - of_int f
      in if d < 1 / 2 then f
         else if 1 / 2 < d then f + 1
         else if even f then f else f + 1)"

definition f64_round :: "real \<Rightarrow> float64" where
  "f64_round x =
     (if x = 0 then 0
      else (let e = f64_exponent \<bar>x\<bar> - 52;
                m = round_half_even (\<bar>x\<bar> / pow2 e)
            in sgn x * of_int m * pow2 e))"

text \<open>The unit roundoff of the format: half the distance from 1 to the next double.\<close>

definition unit_roundoff :: real where
  "unit_roundoff = 1 / 2 ^ 53"

definition f64_of_int :: "int \<Rightarrow> float64" where
  "f64_of_int k = f64_round (of_int k)"

definition f64_add :: "float64 \<Rightarrow> float64 \<Rightarrow> float64" where
  "f64_add x y = f64_round (x + y)"

definition f64_mul :: "float64 \<Rightarrow> float64 \<Rightarrow> float64" where
  "f64_mul x y = f64_round (x * y)"

definition f64_div :: "float64 \<Rightarrow> float64 \<Rightarrow> float64" where
  "f64_div x y = f64_round (x / y)"

text \<open>
  The conversion \<^verbatim>\<open>int(x)\<close> of a float discards the fraction (truncation towards
  zero). Its result is implementation-defined when the value does not fit the integer
  type, which no call below reaches.
\<close>

definition int_of_f64 :: "float64 \<Rightarrow> int" where
  "int_of_f64 x = (if 0 \<le> x then \<lfloor>x\<rfloor> else \<lceil>x\<rceil>)"

section \<open>Integers, strings and formatting\<close>

text \<open>
  Go's \<^verbatim>\<open>int\<close> is a 64-bit two's complement integer on the platforms the tool is
  built for. It is modelled as \<open>int\<close>, with the wrap-around written out where a
  result can leave the range.
\<close>

definition wrap64 :: "int \<Rightarrow> int" where
  "wrap64 x = (x + 2 ^ 63) mod 2 ^ 64 - 2 ^ 63"

text \<open>The verb \<^verbatim>\<open>%d\<close> of \<^verbatim>\<open>fmt.Sprintf\<close>: decimal digits, with a minus sign.\<close>

function nat_digits :: "nat \<Rightarrow> string" where
  "nat_digits n =
     (if n < 10 then [''0123456789'' ! n]
      else nat_digits (n div 10) @ [''0123456789'' ! (n mod 10)])"
  by pat_completeness auto
termination
  by (relation "measure (\<lambda>n. n)") auto

declare nat_digits.simps [simp del]

definition fmt_d :: "int \<Rightarrow> string" where
  "fmt_d k = (if k < 0 then CHR ''-'' # nat_digits (nat (- k)) else nat_digits (nat k))"

fun strings_Join :: "string list \<Rightarrow> string \<Rightarrow> string" where
  "strings_Join [] sep = []"
| "strings_Join [x] sep = x"
| "strings_Join (x # y # ys) sep = x @ sep @ strings_Join (y # ys) sep"

text \<open>
  \<^verbatim>\<open>strings.ToLower\<close>, on the ASCII letters. (Go also maps the upper-case letters
  beyond ASCII; the colour names compared against are ASCII.)
\<close>

definition to_lower_char :: "char \<Rightarrow> char" where
  "to_lower_char c =
     (let n = (of_char c :: nat) in if 65 \<le> n \<and> n \<le> 90 then char_of (n + 32) else c)"

definition strings_ToLower :: "string \<Rightarrow> string" where
  "strings_ToLower s = map to_lower_char s"

text \<open>
  A log line is kept as the format string with its arguments, so that the numbers that
  are rendered stay visible; \<open>Colored\<close> is a line wrapped in the escape sequences of the
  given colour attributes.
\<close>

datatype fmt_arg = StrArg string | IntArg int | FloatArg float64 | ErrArg error

datatype message =
    Text string
  | Sprintf string "fmt_arg list"
  | Colored "int list" message

section \<open>Time\<close>

text \<open>
  A \<^verbatim>\<open>time.Time\<close> is modelled as an instant: the number of nanoseconds since the
  zero time. (The monotonic clock reading and the location that a Go value carries besides
  are not part of the model.) A \<^verbatim>\<open>time.Duration\<close> is a signed 64-bit count of
  nanoseconds, and \<^verbatim>\<open>Time.Sub\<close> saturates at its bounds.
\<close>

type_synonym Time = int
type_synonym Duration = int

definition time_IsZero :: "Time \<Rightarrow> bool" where
  "time_IsZero t = (t = 0)"

definition minDuration :: Duration where
  "minDuration = - (2 ^ 63)"

definition maxDuration :: Duration where
  "maxDuration = 2 ^ 63 - 1"

definition time_Sub :: "Time \<Rightarrow> Time \<Rightarrow> Duration" where
  "time_Sub t u =
     (let d = t - u
      in if maxDuration < d then maxDuration
         else if d < minDuration then minDuration
         else d)"

definition Second :: Duration where
  "Second = 1000000000"

definition Minute :: Duration where
  "Minute = 60 * Second"

definition Hour :: Duration where
  "Hour = 60 * Minute"

text \<open>
  \<^verbatim>\<open>Duration.Hours\<close>, \<^verbatim>\<open>Minutes\<close> and \<^verbatim>\<open>Seconds\<close> of the standard library: the
  integer quotient (Go's \<^verbatim>\<open>/\<close> and \<^verbatim>\<open>%\<close> truncate towards zero) plus the
  remainder as a fraction, in float64 arithmetic.
\<close>

definition Duration_Hours :: "Duration \<Rightarrow> float64" where
  "Duration_Hours d =
     (let hour = d sdiv Hour; nsec = d smod Hour
      in f64_add (f64_of_int hour) (f64_div (f64_of_int nsec) (60 * 60 * 1000000000)))"

definition Duration_Minutes :: "Duration \<Rightarrow> float64" where
  "Duration_Minutes d =
     (let mins = d sdiv Minute; nsec = d smod Minute
      in f64_add (f64_of_int mins) (f64_div (f64_of_int nsec) (60 * 1000000000)))"

definition Duration_Seconds :: "Duration \<Rightarrow> float64" where
  "Duration_Seconds d =
     (let sec = d sdiv Second; nsec = d smod Second
      in f64_add (f64_of_int sec) (f64_div (f64_of_int nsec) 1000000000))"

section \<open>The progress model\<close>

text \<open>
  The two structs of \<^verbatim>\<open>progress.go\<close>. The time fields of \<open>ProgressInfo\<close> carry
  the prefix \<open>Task\<close>, since a field name belongs to one record only. The map
  \<open>TaskProgress\<close> is a finite map, or \<open>None\<close> for Go's nil map (what
  \<^verbatim>\<open>json.Unmarshal\<close> leaves when the file has no \<^verbatim>\<open>taskProgress\<close> object).
\<close>

record ProgressInfo =
  TaskID :: string
  Name :: string
  Completed :: bool
  TotalSteps :: int
  CompletedSteps :: int
  TaskStartTime :: Time
  TaskEndTime :: Time

record DeploymentProgress =
  StartTime :: Time
  EndTime :: Time
  TotalTasks :: int
  CompletedTasks :: int
  CurrentTask :: string
  TaskProgress :: "(string, ProgressInfo) fmap option"

text \<open>The zero value of \<open>ProgressInfo\<close>, which a lookup of a missing key returns.\<close>

definition zero_ProgressInfo :: ProgressInfo where
  "zero_ProgressInfo =
     \<lparr>TaskID = '''', Name = '''', Completed = False, TotalSteps = 0, CompletedSteps = 0,
      TaskStartTime = 0, TaskEndTime = 0\<rparr>"

text \<open>\<^verbatim>\<open>info, exists := m[key]\<close>: a nil map reads as an empty one.\<close>

definition map_lookup :: "DeploymentProgress \<Rightarrow> string \<Rightarrow> ProgressInfo \<times> bool" where
  "map_lookup dp key =
     (case TaskProgress dp of
        None \<Rightarrow> (zero_ProgressInfo, False)
      | Some m \<Rightarrow>
          (case fmlookup m key of
             None \<Rightarrow> (zero_ProgressInfo, False)
           | Some info \<Rightarrow> (info, True)))"

text \<open>\<^verbatim>\<open>m[key] = info\<close>: the assignment panics on a nil map.\<close>

definition map_assign ::
  "string \<Rightarrow> ProgressInfo \<Rightarrow> DeploymentProgress \<Rightarrow> panic + DeploymentProgress" where
  "map_assign key info dp =
     (case TaskProgress dp of
        None \<Rightarrow> Inl NilMapAssignment
      | Some m \<Rightarrow> Inr (dp\<lparr>TaskProgress := Some (fmupd key info m)\<rparr>))"

section \<open>The environment: clock, file system, JSON codec\<close>

text \<open>
  The file system maps a path to the content of the file there. Whether an operation of
  package \<^verbatim>\<open>os\<close> fails on a path (permissions, a full disk, a file in the place of
  a directory) is given by one oracle per operation. A failed write leaves the file system
  as it was.
\<close>

record filesystem =
  files :: "string \<rightharpoonup> string"
  MkdirAll_err :: "string \<Rightarrow> error option"
  WriteFile_err :: "string \<Rightarrow> error option"
  ReadFile_err :: "string \<Rightarrow> error option"

text \<open>
  \<^verbatim>\<open>filepath.Dir\<close> and \<^verbatim>\<open>filepath.Join\<close>, without the cleaning of the path
  that the library adds: the result only selects the answer of an oracle and the name of
  the default progress file.
\<close>

definition filepath_Dir :: "string \<Rightarrow> string" where
  "filepath_Dir p =
     (let d = rev (dropWhile (\<lambda>c. c \<noteq> CHR ''/'') (rev p))
      in if d = [] then ''.'' else if d = ''/'' then ''/'' else butlast d)"

definition filepath_Join :: "string \<Rightarrow> string \<Rightarrow> string" where
  "filepath_Join a b = (if a = [] then b else a @ ''/'' @ b)"

definition os_ReadFile :: "filesystem \<Rightarrow> string \<Rightarrow> error + string" where
  "os_ReadFile fsys p =
     (case ReadFile_err fsys p of
        Some err \<Rightarrow> Inl err
      | None \<Rightarrow>
          (case files fsys p of
             None \<Rightarrow> Inl (Err ''no such file or directory'')
           | Some data \<Rightarrow> Inr data))"

definition os_WriteFile ::
  "filesystem \<Rightarrow> string \<Rightarrow> string \<Rightarrow> error option \<times> filesystem" where
  "os_WriteFile fsys p data =
     (case WriteFile_err fsys p of
        Some err \<Rightarrow> (Some err, fsys)
      | None \<Rightarrow> (None, fsys\<lparr>files := (files fsys)(p \<mapsto> data)\<rparr>))"

text \<open>
  The encoder and decoder of package \<^verbatim>\<open>encoding/json\<close> are parameters of the model:
  \<^verbatim>\<open>json.MarshalIndent\<close> at type \<open>DeploymentProgress\<close>, and \<^verbatim>\<open>json.Unmarshal\<close>
  into a zero \<open>DeploymentProgress\<close>.
\<close>

record json =
  MarshalIndent :: "DeploymentProgress \<Rightarrow> error + string"
  Unmarshal :: "string \<Rightarrow> error + DeploymentProgress"

text \<open>
  The environment of a run: the file system, the clock (the \<open>n\<close>-th call of
  \<^verbatim>\<open>time.Now\<close> returns \<open>clock n\<close>), and the state \<open>world\<close> that the tasks act on.
\<close>

record 'w env =
  fs :: filesystem
  clock :: "nat \<Rightarrow> Time"
  ticks :: nat
  world :: 'w

definition time_Now :: "'w env \<Rightarrow> Time \<times> 'w env" where
  "time_Now env = (clock env (ticks env), env\<lparr>ticks := Suc (ticks env)\<rparr>)"

section \<open>Creating, saving and loading the progress\<close>

definition NewDeploymentProgress :: "'w env \<Rightarrow> DeploymentProgress \<times> 'w env" where
  "NewDeploymentProgress env =
     (let (now, env') = time_Now env
      in (\<lparr>StartTime = now, EndTime = 0, TotalTasks = 0, CompletedTasks = 0,
           CurrentTask = '''', TaskProgress = Some fmempty\<rparr>, env'))"

definition SaveProgressToFile ::
  "json \<Rightarrow> DeploymentProgress \<Rightarrow> string \<Rightarrow> filesystem \<Rightarrow> error option \<times> filesystem" where
  "SaveProgressToFile js dp filePath fsys =
     (let dir = filepath_Dir filePath
      in case MkdirAll_err fsys dir of
           Some err \<Rightarrow> (Some (Trace err), fsys)
         | None \<Rightarrow>
             (case MarshalIndent js dp of
                Inl err \<Rightarrow> (Some (Trace err), fsys)
              | Inr data \<Rightarrow> os_WriteFile fsys filePath data))"

definition LoadProgressFromFile ::
  "json \<Rightarrow> string \<Rightarrow> 'w env \<Rightarrow> (error + DeploymentProgress) \<times> 'w env" where
  "LoadProgressFromFile js filePath env =
     (if files (fs env) filePath = None
      then (let (dp, env') = NewDeploymentProgress env in (Inr dp, env'))
      else (case os_ReadFile (fs env) filePath of
              Inl err \<Rightarrow> (Inl (Trace err), env)
            | Inr data \<Rightarrow>
                (case Unmarshal js data of
                   Inl err \<Rightarrow> (Inl (Trace err), env)
                 | Inr progress \<Rightarrow> (Inr progress, env))))"

section \<open>Rendering\<close>

text \<open>
  The loop of \<open>DisplayProgress\<close> that builds the bar, one cell for each \<open>i\<close> below
  \<open>width\<close>, appended to what the builder holds.
\<close>

function bar_loop :: "int \<Rightarrow> int \<Rightarrow> int \<Rightarrow> string \<Rightarrow> string" where
  "bar_loop i width completedWidth bar =
     (if i < width
      then bar_loop (i + 1) width completedWidth
             (bar @ (if i < completedWidth then ''=''
                     else if i = completedWidth \<and> completedWidth < width then ''>''
                     else '' ''))
      else bar)"
  by pat_completeness auto
termination
  by (relation "measure (\<lambda>(i, width, completedWidth, bar). nat (width - i))") auto

declare bar_loop.simps [simp del]

text \<open>
  The parts of \<open>DisplayProgress\<close>: the percentage, the number \<open>completedWidth\<close> of
  cells to fill (for the constant \<open>width = 30\<close>), and the bar between its brackets.
\<close>

definition percentage :: "DeploymentProgress \<Rightarrow> int \<Rightarrow> float64" where
  "percentage dp taskIndex =
     (if 0 < TotalTasks dp
      then f64_mul (f64_div (f64_of_int taskIndex) (f64_of_int (TotalTasks dp))) 100
      else 0)"

definition completedWidth :: "float64 \<Rightarrow> int" where
  "completedWidth pct = int_of_f64 (f64_div (f64_mul (f64_of_int 30) pct) 100)"

definition progress_bar :: "float64 \<Rightarrow> string" where
  "progress_bar pct = bar_loop 0 30 (completedWidth pct) ''['' @ '']''"

text \<open>
  \<open>DisplayProgress\<close> logs one line at level Info; the model returns that line. The
  colour attribute is an integer, negative for no colour.
\<close>

definition DisplayProgress ::
  "DeploymentProgress \<Rightarrow> int \<Rightarrow> string \<Rightarrow> string \<Rightarrow> int \<Rightarrow> message" where
  "DisplayProgress dp taskIndex taskName progressStyle colorAttr =
     (let useColor = (0 \<le> colorAttr);
          pct = percentage dp taskIndex;
          message =
            (if progressStyle = ''bar''
             then Sprintf ''%s %.1f%% (%d/%d) Current: %s''
                    [StrArg (progress_bar pct), FloatArg pct, IntArg (taskIndex + 1),
                     IntArg (TotalTasks dp), StrArg taskName]
             else if progressStyle = ''percentage''
             then Sprintf ''Deployment progress: %.1f%% (%d/%d) - Running task: %s''
                    [FloatArg pct, IntArg (taskIndex + 1), IntArg (TotalTasks dp), StrArg taskName]
             else Sprintf ''Running task %s (%d/%d)''
                    [StrArg taskName, IntArg (taskIndex + 1), IntArg (TotalTasks dp)])
      in if useColor then Colored [colorAttr] message else message)"

text \<open>
  \<open>formatDuration\<close>: the parts are appended in the order of the source, each under
  its guard, and joined by a space.
\<close>

definition formatDuration :: "Duration \<Rightarrow> string" where
  "formatDuration d =
     (let hours = int_of_f64 (Duration_Hours d);
          minutes = int_of_f64 (Duration_Minutes d) smod 60;
          seconds = int_of_f64 (Duration_Seconds d) smod 60;
          parts = [];
          parts = (if 0 < hours then parts @ [fmt_d hours @ '' hours''] else parts);
          parts = (if 0 < minutes then parts @ [fmt_d minutes @ '' minutes''] else parts);
          parts = (if 0 < seconds \<or> length parts = 0
                   then parts @ [fmt_d seconds @ '' seconds''] else parts)
      in strings_Join parts '' '')"

text \<open>The attribute \<^verbatim>\<open>color.Bold\<close> of the colour library.\<close>

definition color_Bold :: int where
  "color_Bold = 1"

text \<open>\<open>DisplayDeploymentComplete\<close> logs one or two lines at level Info.\<close>

definition DisplayDeploymentComplete :: "DeploymentProgress \<Rightarrow> int \<Rightarrow> message list" where
  "DisplayDeploymentComplete dp colorAttr =
     (let useColor = (0 \<le> colorAttr);
          message = Text ''Deployment completed successfully!'';
          message = (if useColor then Colored [colorAttr, color_Bold] message else message)
      in [message] @
         (if \<not> time_IsZero (EndTime dp)
          then [Sprintf ''Total deployment time: %s''
                  [StrArg (formatDuration (time_Sub (EndTime dp) (StartTime dp)))]]
          else []))"

text \<open>
  The bright foreground colours of the colour library, by their numbers; \<open>- 1\<close> for
  \<open>none\<close> and for a name that is not in the table.
\<close>

definition colorMap :: "string \<rightharpoonup> int" where
  "colorMap =
     [''green'' \<mapsto> 92, ''cyan'' \<mapsto> 96, ''yellow'' \<mapsto> 93, ''blue'' \<mapsto> 94,
      ''magenta'' \<mapsto> 95, ''red'' \<mapsto> 91, ''white'' \<mapsto> 97]"

definition getColorAttribute :: "string \<Rightarrow> int" where
  "getColorAttribute colorName =
     (if strings_ToLower colorName = ''none'' then - 1
      else (case colorMap (strings_ToLower colorName) of
              Some attr \<Rightarrow> attr
            | None \<Rightarrow> - 1))"

section \<open>The runner\<close>

text \<open>
  Modelled from the spec: the fields of the configuration (package \<^verbatim>\<open>pkg/config\<close>,
  not among the files at hand) that the runner reads: \<^verbatim>\<open>WorkDir\<close>,
  \<^verbatim>\<open>Deployment.ProgressFilePath\<close>, \<^verbatim>\<open>Deployment.ResumeEnabled\<close>,
  \<^verbatim>\<open>UI.ShowProgress\<close>, \<^verbatim>\<open>UI.ProgressStyle\<close> and \<^verbatim>\<open>UI.TaskInfoColor\<close>.
\<close>

record Config =
  WorkDir :: string
  ProgressFilePath :: string
  ResumeEnabled :: bool
  ShowProgress :: bool
  ProgressStyle :: string
  TaskInfoColor :: string

text \<open>
  Modelled from the spec: a task (the interface \<^verbatim>\<open>Interface\<close>, declared outside the
  files at hand) has a name and a run operation, which acts on the world and fails with an
  error or succeeds. A task does not touch the progress model, which the runner alone
  mutates.
\<close>

record 'w Task =
  task_Name :: string
  task_Run :: "'w \<Rightarrow> error option \<times> 'w"

text \<open>
  The runner, with the field \<^verbatim>\<open>Runtime.Progress\<close> in the place of the runtime:
  \<open>None\<close> before \<open>Init\<close> has run.
\<close>

record 'w Runner =
  cfg :: Config
  tasks :: "'w Task list"
  init :: bool
  progressFile :: string
  Progress :: "DeploymentProgress option"

definition Register :: "'w Runner \<Rightarrow> 'w Task list \<Rightarrow> error option \<times> 'w Runner" where
  "Register r task =
     (if init r then (Some (Err ''runner has been initialized''), r)
      else (None, r\<lparr>tasks := tasks r @ task\<rparr>))"

text \<open>
  What a run does besides changing its state, in the order of occurrence: a line logged,
  the assignment to \<open>CurrentTask\<close>, the call of the run operation of the task at an
  index with its result, and an attempt to write the progress to a path with its result.
\<close>

datatype level = Info | Warn

datatype event =
    Log level message
  | SetCurrentTask string
  | Invoke nat "error option"
  | Save string DeploymentProgress "error option"

definition initProgressTracking ::
  "json \<Rightarrow> 'w Runner \<Rightarrow> 'w env \<Rightarrow> 'w Runner \<times> 'w env \<times> event list" where
  "initProgressTracking js r env =
     (let file = (if ProgressFilePath (cfg r) \<noteq> '''' then ProgressFilePath (cfg r)
                  else filepath_Join (WorkDir (cfg r)) ''deployment_progress.json'');
          (progress, env', evs) =
            (if ResumeEnabled (cfg r)
             then (case LoadProgressFromFile js file env of
                     (Inl err, env1) \<Rightarrow>
                       (let (dp, env2) = NewDeploymentProgress env1
                        in (dp, env2,
                            [Log Warn (Sprintf
                               ''Failed to load progress file: %v, starting fresh deployment''
                               [ErrArg err])]))
                   | (Inr progress, env1) \<Rightarrow>
                       (progress, env1,
                        [Log Info (Sprintf ''Resuming deployment with %d/%d completed tasks''
                           [IntArg (CompletedTasks progress), IntArg (TotalTasks progress)])]))
             else (let (dp, env2) = NewDeploymentProgress env in (dp, env2, [])))
      in (r\<lparr>progressFile := file,
            Progress := Some (progress\<lparr>TotalTasks := int (length (tasks r))\<rparr>)\<rparr>,
          env', evs))"

text \<open>
  \<open>saveProgress\<close>, together with the warning that each of its three callers logs when
  it fails, with the caller's format string.
\<close>

definition saveProgress ::
  "json \<Rightarrow> Config \<Rightarrow> string \<Rightarrow> DeploymentProgress \<Rightarrow> 'w env
     \<Rightarrow> error option \<times> 'w env \<times> event list" where
  "saveProgress js c file dp env =
     (if \<not> ResumeEnabled c then (None, env, [])
      else (let (err, fsys) = SaveProgressToFile js dp file (fs env)
            in (err, env\<lparr>fs := fsys\<rparr>, [Save file dp err])))"

definition save_or_warn ::
  "string \<Rightarrow> json \<Rightarrow> Config \<Rightarrow> string \<Rightarrow> DeploymentProgress \<Rightarrow> 'w env
     \<Rightarrow> 'w env \<times> event list" where
  "save_or_warn fmt js c file dp env =
     (case saveProgress js c file dp env of
        (None, env', evs) \<Rightarrow> (env', evs)
      | (Some err, env', evs) \<Rightarrow> (env', evs @ [Log Warn (Sprintf fmt [ErrArg err])]))"

text \<open>
  One iteration of the loop of \<open>Run\<close>, for the task \<open>task\<close> at index \<open>i\<close>. The
  result \<open>Inr None\<close> lets the loop go on (after \<^verbatim>\<open>continue\<close>, or at the end of the
  body), \<open>Inr (Some err)\<close> is \<^verbatim>\<open>return err\<close>, and \<open>Inl p\<close> a panic.
\<close>

definition run_task ::
  "json \<Rightarrow> Config \<Rightarrow> string \<Rightarrow> int \<Rightarrow> bool \<Rightarrow> nat \<Rightarrow> 'w Task \<Rightarrow> DeploymentProgress \<Rightarrow> 'w env
     \<Rightarrow> (panic + error option) \<times> DeploymentProgress \<times> 'w env \<times> event list" where
  "run_task js c file highlightColor useColor i task dp env =
     (let taskID = task_Name task
      in if ResumeEnabled c \<and> snd (map_lookup dp taskID) \<and> Completed (fst (map_lookup dp taskID))
         then (Inr None, dp, env,
               [Log Info (Sprintf ''Skipping completed task %s (%d/%d)''
                  [StrArg (task_Name task), IntArg (int i + 1), IntArg (TotalTasks dp)])])
         else
           (let dp1 = dp\<lparr>CurrentTask := task_Name task\<rparr>;
                message =
                  (if ShowProgress c
                   then DisplayProgress dp1 (int i) (task_Name task) (ProgressStyle c) highlightColor
                   else if useColor
                   then Colored [highlightColor, color_Bold]
                          (Sprintf ''Running task %s'' [StrArg (task_Name task)])
                   else Sprintf ''Running task %s'' [StrArg (task_Name task)]);
                evs1 = [SetCurrentTask (task_Name task), Log Info message];
                (now, env1) = time_Now env
            in case map_assign taskID
                      \<lparr>TaskID = taskID, Name = task_Name task, Completed = False,
                       TotalSteps = 0, CompletedSteps = 0, TaskStartTime = now,
                       TaskEndTime = 0\<rparr> dp1 of
                 Inl p \<Rightarrow> (Inl p, dp1, env1, evs1)
               | Inr dp2 \<Rightarrow>
                   (let (env2, evs2) = save_or_warn ''Failed to save progress: %v'' js c file dp2 env1;
                        (res, w) = task_Run task (world env2);
                        env3 = env2\<lparr>world := w\<rparr>;
                        evs3 = evs1 @ evs2 @ [Invoke i res]
                    in case res of
                         Some err \<Rightarrow>
                           (Inr (Some (Annotatef err (''run task '' @ task_Name task))),
                            dp2, env3, evs3)
                       | None \<Rightarrow>
                           (let info = fst (map_lookup dp2 taskID);
                                (now', env4) = time_Now env3;
                                info = info\<lparr>Completed := True, TaskEndTime := now'\<rparr>
                            in case map_assign taskID info dp2 of
                                 Inl p \<Rightarrow> (Inl p, dp2, env4, evs3)
                               | Inr dp3 \<Rightarrow>
                                   (let dp4 = dp3\<lparr>CompletedTasks := wrap64 (CompletedTasks dp3 + 1)\<rparr>;
                                        (env5, evs5) =
                                          save_or_warn ''Failed to save progress: %v'' js c file dp4 env4
                                    in (Inr None, dp4, env5, evs3 @ evs5))))))"

text \<open>The loop of \<open>Run\<close> over the tasks from index \<open>i\<close> on.\<close>

fun run_tasks ::
  "json \<Rightarrow> Config \<Rightarrow> string \<Rightarrow> int \<Rightarrow> bool \<Rightarrow> nat \<Rightarrow> 'w Task list \<Rightarrow> DeploymentProgress \<Rightarrow> 'w env
     \<Rightarrow> (panic + error option) \<times> DeploymentProgress \<times> 'w env \<times> event list" where
  "run_tasks js c file highlightColor useColor i [] dp env = (Inr None, dp, env, [])"
| "run_tasks js c file highlightColor useColor i (task # rest) dp env =
     (case run_task js c file highlightColor useColor i task dp env of
        (Inr None, dp', env', evs) \<Rightarrow>
          (case run_tasks js c file highlightColor useColor (Suc i) rest dp' env' of
             (res, dp'', env'', evs') \<Rightarrow> (res, dp'', env'', evs @ evs'))
      | (res, dp', env', evs) \<Rightarrow> (res, dp', env', evs))"

text \<open>
  \<open>Run\<close> on a runner and an environment: the result (a panic, or the error returned,
  \<open>None\<close> for nil), the runner and the environment afterwards, and the events of the
  run. Without \<open>Init\<close> before it, the first access to the progress panics.
\<close>

definition Run ::
  "json \<Rightarrow> 'w Runner \<Rightarrow> 'w env
     \<Rightarrow> (panic + error option) \<times> 'w Runner \<times> 'w env \<times> event list" where
  "Run js r env =
     (let highlightColor =
            (if TaskInfoColor (cfg r) \<noteq> '''' then getColorAttribute (TaskInfoColor (cfg r)) else 0);
          useColor = (TaskInfoColor (cfg r) \<noteq> '''' \<and> 0 \<le> highlightColor)
      in case Progress r of
           None \<Rightarrow> (Inl NilPointerDereference, r, env, [])
         | Some dp \<Rightarrow>
             (case run_tasks js (cfg r) (progressFile r) highlightColor useColor 0 (tasks r) dp env of
                (Inr None, dp', env', evs) \<Rightarrow>
                  (let (now, env1) = time_Now env';
                       dp1 = dp'\<lparr>EndTime := now\<rparr>;
                       evs1 = (if ShowProgress (cfg r)
                               then map (Log Info) (DisplayDeploymentComplete dp1 highlightColor)
                               else []);
                       (env2, evs2) =
                         save_or_warn ''Failed to save final progress: %v'' js (cfg r)
                           (progressFile r) dp1 env1
                   in (Inr None, r\<lparr>Progress := Some dp1\<rparr>, env2, evs @ evs1 @ evs2))
              | (res, dp', env', evs) \<Rightarrow> (res, r\<lparr>Progress := Some dp'\<rparr>, env', evs)))"

section \<open>Notions used in the statements\<close>

text \<open>A record exists for the key and its \<open>Completed\<close> field is true.\<close>

definition is_completed :: "DeploymentProgress \<Rightarrow> string \<Rightarrow> bool" where
  "is_completed dp key = (snd (map_lookup dp key) \<and> Completed (fst (map_lookup dp key)))"

text \<open>The number of entries of \<open>TaskProgress\<close> whose \<open>Completed\<close> field is true.\<close>

definition completed_count :: "DeploymentProgress \<Rightarrow> nat" where
  "completed_count dp =
     (case TaskProgress dp of
        None \<Rightarrow> 0
      | Some m \<Rightarrow>
          fcard (ffilter (\<lambda>key. case fmlookup m key of None \<Rightarrow> False | Some info \<Rightarrow> Completed info)
                   (fmdom m)))"

definition progress_inv :: "DeploymentProgress \<Rightarrow> bool" where
  "progress_inv dp = (CompletedTasks dp = int (completed_count dp))"

text \<open>
  The pieces of one iteration of the loop of \<open>Run\<close>: the record stored when a task
  starts, the line logged then, the two events of the start, and the progress after the
  start and after the success of the task.
\<close>

definition started :: "string \<Rightarrow> Time \<Rightarrow> ProgressInfo" where
  "started name now =
     \<lparr>TaskID = name, Name = name, Completed = False, TotalSteps = 0, CompletedSteps = 0,
      TaskStartTime = now, TaskEndTime = 0\<rparr>"

definition start_line ::
  "Config \<Rightarrow> int \<Rightarrow> bool \<Rightarrow> nat \<Rightarrow> string \<Rightarrow> DeploymentProgress \<Rightarrow> message" where
  "start_line c hc uc i name dp =
     (if ShowProgress c then DisplayProgress dp (int i) name (ProgressStyle c) hc
      else if uc then Colored [hc, color_Bold] (Sprintf ''Running task %s'' [StrArg name])
      else Sprintf ''Running task %s'' [StrArg name])"

definition start_events ::
  "Config \<Rightarrow> int \<Rightarrow> bool \<Rightarrow> nat \<Rightarrow> string \<Rightarrow> DeploymentProgress \<Rightarrow> event list" where
  "start_events c hc uc i name dp =
     [SetCurrentTask name, Log Info (start_line c hc uc i name (dp\<lparr>CurrentTask := name\<rparr>))]"

definition start_progress ::
  "string \<Rightarrow> Time \<Rightarrow> (string, ProgressInfo) fmap \<Rightarrow> DeploymentProgress \<Rightarrow> DeploymentProgress" where
  "start_progress name now m dp =
     dp\<lparr>CurrentTask := name, TaskProgress := Some (fmupd name (started name now) m)\<rparr>"

definition finish_progress ::
  "string \<Rightarrow> Time \<Rightarrow> Time \<Rightarrow> (string, ProgressInfo) fmap \<Rightarrow> DeploymentProgress
     \<Rightarrow> DeploymentProgress" where
  "finish_progress name now now' m dp =
     dp\<lparr>CurrentTask := name,
        TaskProgress :=
          Some (fmupd name ((started name now)\<lparr>Completed := True, TaskEndTime := now'\<rparr>) m),
        CompletedTasks := wrap64 (CompletedTasks dp + 1)\<rparr>"

text \<open>The call of a task's run operation succeeded.\<close>

fun is_success :: "event \<Rightarrow> bool" where
  "is_success (Invoke i None) = True"
| "is_success e = False"

section \<open>Example inputs\<close>

text \<open>
  A file system without files on which no operation fails, a progress value, a toy codec
  that writes the name of the current task and rejects the text \<open>{\<close>, and an
  environment whose clock starts at 100.
\<close>

definition demo_fs :: filesystem where
  "demo_fs =
     \<lparr>files = Map.empty, MkdirAll_err = (\<lambda>p. None), WriteFile_err = (\<lambda>p. None),
      ReadFile_err = (\<lambda>p. None)\<rparr>"

definition demo_progress :: "string \<Rightarrow> DeploymentProgress" where
  "demo_progress s =
     \<lparr>StartTime = 0, EndTime = 0, TotalTasks = 0, CompletedTasks = 0, CurrentTask = s,
      TaskProgress = None\<rparr>"

definition demo_json :: json where
  "demo_json =
     \<lparr>MarshalIndent = (\<lambda>dp. Inr (CurrentTask dp)),
      Unmarshal = (\<lambda>data. if data = ''{'' then Inl (Err ''unexpected end of JSON input'')
                           else Inr (demo_progress data))\<rparr>"

definition demo_env :: "nat env" where
  "demo_env = \<lparr>fs = demo_fs, clock = (\<lambda>n. 100 + int n), ticks = 0, world = 0\<rparr>"

definition demo_cfg :: "bool \<Rightarrow> Config" where
  "demo_cfg resume =
     \<lparr>WorkDir = ''/w'', ProgressFilePath = '''', ResumeEnabled = resume, ShowProgress = False,
      ProgressStyle = ''bar'', TaskInfoColor = ''''\<rparr>"

text \<open>A task that succeeds and counts its runs in the world, and one that fails.\<close>

definition demo_ok :: "string \<Rightarrow> nat Task" where
  "demo_ok name = \<lparr>task_Name = name, task_Run = (\<lambda>w. (None, Suc w))\<rparr>"

definition demo_fail :: "string \<Rightarrow> nat Task" where
  "demo_fail name = \<lparr>task_Name = name, task_Run = (\<lambda>w. (Some (Err ''disk full''), w))\<rparr>"

definition demo_runner :: "bool \<Rightarrow> nat Task list \<Rightarrow> DeploymentProgress option \<Rightarrow> nat Runner" where
  "demo_runner resume ts p =
     \<lparr>cfg = demo_cfg resume, tasks = ts, init = True,
      progressFile = ''/w/deployment_progress.json'', Progress = p\<rparr>"

text \<open>A progress in which the task \<open>A\<close> is completed.\<close>

definition demo_done :: DeploymentProgress where
  "demo_done =
     \<lparr>StartTime = 1, EndTime = 0, TotalTasks = 2, CompletedTasks = 1, CurrentTask = ''A'',
      TaskProgress =
        Some (fmupd ''A'' ((started ''A'' 2)\<lparr>Completed := True, TaskEndTime := 3\<rparr>) fmempty)\<rparr>"

section \<open>Properties of the typed accessors\<close>

text \<open>
  Claim C9. A key whose stored value is not of the requested type makes
  \<open>LoadString\<close>, \<open>LoadBool\<close> and \<open>LoadInt\<close> fail with a type-assertion panic that
  reports the dynamic type found; no value of the wrong type is returned. For an absent
  key each accessor returns the zero value of its type and \<open>False\<close>, without failing.
\<close>

theorem typed_load_mismatch_fails:
  "(r key = Some v \<and> (\<forall>s. v \<noteq> VString s)
      \<longrightarrow> LoadString r key = Inl (TypeAssertionError (dyn_type v) ''string''))
   \<and> (r key = Some v \<and> (\<forall>b. v \<noteq> VBool b)
      \<longrightarrow> LoadBool r key = Inl (TypeAssertionError (dyn_type v) ''bool''))
   \<and> (r key = Some v \<and> (\<forall>n. v \<noteq> VInt n)
      \<longrightarrow> LoadInt r key = Inl (TypeAssertionError (dyn_type v) ''int''))
   \<and> (r key = None
      \<longrightarrow> LoadString r key = Inr ('''', False)
        \<and> LoadBool r key = Inr (False, False)
        \<and> LoadInt r key = Inr (0, False))"
  by (cases v) (simp_all add: LoadString_def LoadBool_def LoadInt_def)

theorem typed_load_mismatch_fails_witness:
  "LoadString [''k'' \<mapsto> VInt 7] ''k'' = Inl (TypeAssertionError ''int'' ''string'')
   \<and> LoadBool [''k'' \<mapsto> VInt 7] ''k'' = Inl (TypeAssertionError ''int'' ''bool'')
   \<and> LoadInt [''k'' \<mapsto> VString ''x''] ''k'' = Inl (TypeAssertionError ''string'' ''int'')
   \<and> LoadString (Map.empty :: string sync_Map) ''k'' = Inr ('''', False)
   \<and> LoadBool (Map.empty :: string sync_Map) ''k'' = Inr (False, False)
   \<and> LoadInt (Map.empty :: string sync_Map) ''k'' = Inr (0, False)"
  using typed_load_mismatch_fails [of "[''k'' \<mapsto> VInt 7]" "''k''" "VInt 7"]
    typed_load_mismatch_fails [of "[''k'' \<mapsto> VString ''x'']" "''k''" "VString ''x''"]
    typed_load_mismatch_fails [of "Map.empty :: string sync_Map" "''k''" "VNil"]
  by simp

section \<open>Saving and loading the progress\<close>



text \<open>
  Claim C6. On a path where no file exists, \<open>LoadProgressFromFile\<close> returns no error
  and the value that \<open>NewDeploymentProgress\<close> creates: the start time is the time of
  the call, both counters are zero and the task map is empty. It leaves the environment
  as \<open>NewDeploymentProgress\<close> does.
\<close>

theorem LoadProgressFromFile_nonexistent:
  assumes "files (fs env) filePath = None"
  shows "LoadProgressFromFile js filePath env =
           (Inr (fst (NewDeploymentProgress env)), snd (NewDeploymentProgress env))
         \<and> fst (NewDeploymentProgress env) =
             \<lparr>StartTime = clock env (ticks env), EndTime = 0, TotalTasks = 0,
              CompletedTasks = 0, CurrentTask = '''', TaskProgress = Some fmempty\<rparr>"
  using assms
  by (simp add: LoadProgressFromFile_def NewDeploymentProgress_def time_Now_def
      split: prod.splits)

theorem LoadProgressFromFile_nonexistent_witness:
  "files (fs demo_env) ''/w/deployment_progress.json'' = None
   \<and> fst (LoadProgressFromFile demo_json ''/w/deployment_progress.json'' demo_env) =
       Inr \<lparr>StartTime = 100, EndTime = 0, TotalTasks = 0, CompletedTasks = 0,
            CurrentTask = '''', TaskProgress = Some fmempty\<rparr>"
proof -
  have absent: "files (fs demo_env) ''/w/deployment_progress.json'' = None"
    by (simp add: demo_env_def demo_fs_def)
  from LoadProgressFromFile_nonexistent [OF absent, of demo_json] absent
  show ?thesis by (simp add: demo_env_def)
qed

section \<open>Initialising the progress tracking\<close>

lemma LoadProgressFromFile_error_env:
  "LoadProgressFromFile js path env = (Inl err, env1) \<Longrightarrow> env1 = env"
  by (auto simp: LoadProgressFromFile_def Let_def split: if_splits prod.splits sum.splits)

text \<open>
  Claim C5. \<open>initProgressTracking\<close> always returns, with a progress in place. With
  resume enabled, a failure of \<open>LoadProgressFromFile\<close> on the progress file is logged
  as a warning and the progress is a new one; with resume disabled the progress is a new
  one whatever the file system holds, which is neither read nor changed. In every case
  \<open>TotalTasks\<close> is the number of registered tasks.
\<close>

theorem initProgressTracking_progress:
  "(case initProgressTracking js r env of
      (r', env', evs) \<Rightarrow>
        (\<forall>err. ResumeEnabled (cfg r)
               \<and> fst (LoadProgressFromFile js (progressFile r') env) = Inl err
           \<longrightarrow> evs = [Log Warn (Sprintf
                          ''Failed to load progress file: %v, starting fresh deployment''
                          [ErrArg err])]
             \<and> Progress r' =
                 Some ((fst (NewDeploymentProgress env))\<lparr>TotalTasks := int (length (tasks r))\<rparr>))
        \<and> (\<not> ResumeEnabled (cfg r)
           \<longrightarrow> Progress r' =
                 Some ((fst (NewDeploymentProgress env))\<lparr>TotalTasks := int (length (tasks r))\<rparr>)
             \<and> fs env' = fs env \<and> evs = [])
        \<and> (\<exists>dp. Progress r' = Some dp \<and> TotalTasks dp = int (length (tasks r))))"
proof -
  define pf where "pf = (if ProgressFilePath (cfg r) \<noteq> [] then ProgressFilePath (cfg r)
                  else filepath_Join (WorkDir (cfg r)) ''deployment_progress.json'')"
  obtain fresh envn where new: "NewDeploymentProgress env = (fresh, envn)"
    by (cases "NewDeploymentProgress env")
  have envn: "fs envn = fs env"
    using new by (auto simp: NewDeploymentProgress_def time_Now_def)
  show ?thesis
  proof (cases "ResumeEnabled (cfg r)")
    case False
    with new have "initProgressTracking js r env =
        (r\<lparr>progressFile := pf, Progress := Some (fresh\<lparr>TotalTasks := int (length (tasks r))\<rparr>)\<rparr>,
         envn, [])"
      by (simp add: initProgressTracking_def pf_def)
    with False new envn show ?thesis by simp
  next
    case True
    obtain res env1 where load: "LoadProgressFromFile js pf env = (res, env1)"
      by (cases "LoadProgressFromFile js pf env")
    show ?thesis
    proof (cases res)
      case (Inl err)
      with load have "env1 = env" by (simp add: LoadProgressFromFile_error_env)
      with True load Inl new have "initProgressTracking js r env =
        (r\<lparr>progressFile := pf, Progress := Some (fresh\<lparr>TotalTasks := int (length (tasks r))\<rparr>)\<rparr>,
         envn,
         [Log Warn (Sprintf ''Failed to load progress file: %v, starting fresh deployment''
            [ErrArg err])])"
        by (simp add: initProgressTracking_def pf_def [symmetric])
      with True load Inl new show ?thesis by simp
    next
      case (Inr progress)
      with True load have "initProgressTracking js r env =
        (r\<lparr>progressFile := pf, Progress := Some (progress\<lparr>TotalTasks := int (length (tasks r))\<rparr>)\<rparr>,
         env1,
         [Log Info (Sprintf ''Resuming deployment with %d/%d completed tasks''
            [IntArg (CompletedTasks progress), IntArg (TotalTasks progress)])])"
        by (simp add: initProgressTracking_def pf_def [symmetric])
      with True load Inr show ?thesis by simp
    qed
  qed
qed

theorem initProgressTracking_progress_witness:
  "ResumeEnabled (cfg (demo_runner True [demo_ok ''A'', demo_ok ''B''] None))
   \<and> fst (LoadProgressFromFile demo_json ''/w/deployment_progress.json''
          (demo_env\<lparr>fs := demo_fs\<lparr>files := [''/w/deployment_progress.json'' \<mapsto> ''{'']\<rparr>\<rparr>)) =
       Inl (Trace (Err ''unexpected end of JSON input''))
   \<and> snd (snd (initProgressTracking demo_json (demo_runner True [demo_ok ''A'', demo_ok ''B''] None)
          (demo_env\<lparr>fs := demo_fs\<lparr>files := [''/w/deployment_progress.json'' \<mapsto> ''{'']\<rparr>\<rparr>))) =
       [Log Warn (Sprintf ''Failed to load progress file: %v, starting fresh deployment''
          [ErrArg (Trace (Err ''unexpected end of JSON input''))])]
   \<and> Progress (fst (initProgressTracking demo_json
          (demo_runner True [demo_ok ''A'', demo_ok ''B''] None)
          (demo_env\<lparr>fs := demo_fs\<lparr>files := [''/w/deployment_progress.json'' \<mapsto> ''{'']\<rparr>\<rparr>))) =
       Some \<lparr>StartTime = 100, EndTime = 0, TotalTasks = 2, CompletedTasks = 0,
             CurrentTask = '''', TaskProgress = Some fmempty\<rparr>
   \<and> \<not> ResumeEnabled (cfg (demo_runner False [demo_ok ''A'', demo_ok ''B''] None))
   \<and> Progress (fst (initProgressTracking demo_json
          (demo_runner False [demo_ok ''A'', demo_ok ''B''] None)
          (demo_env\<lparr>fs := demo_fs\<lparr>files := [''/w/deployment_progress.json'' \<mapsto> ''A'']\<rparr>\<rparr>))) =
       Some \<lparr>StartTime = 100, EndTime = 0, TotalTasks = 2, CompletedTasks = 0,
             CurrentTask = '''', TaskProgress = Some fmempty\<rparr>"
proof -
  let ?p = "''/w/deployment_progress.json''"
  let ?ra = "demo_runner True [demo_ok ''A'', demo_ok ''B''] None"
  let ?rb = "demo_runner False [demo_ok ''A'', demo_ok ''B''] None"
  let ?ea = "demo_env\<lparr>fs := demo_fs\<lparr>files := [?p \<mapsto> ''{'']\<rparr>\<rparr>"
  let ?eb = "demo_env\<lparr>fs := demo_fs\<lparr>files := [?p \<mapsto> ''A'']\<rparr>\<rparr>"
  have path_a: "progressFile (fst (initProgressTracking demo_json ?ra ?ea)) = ?p"
    by (simp add: initProgressTracking_def demo_runner_def demo_cfg_def filepath_Join_def
        Let_def split: prod.splits)
  have load_a: "LoadProgressFromFile demo_json ?p ?ea =
      (Inl (Trace (Err ''unexpected end of JSON input'')), ?ea)"
    by (simp add: LoadProgressFromFile_def os_ReadFile_def demo_json_def demo_env_def
        demo_fs_def)
  have new: "fst (NewDeploymentProgress ?ea) =
      \<lparr>StartTime = 100, EndTime = 0, TotalTasks = 0, CompletedTasks = 0,
       CurrentTask = '''', TaskProgress = Some fmempty\<rparr>"
    "fst (NewDeploymentProgress ?eb) =
      \<lparr>StartTime = 100, EndTime = 0, TotalTasks = 0, CompletedTasks = 0,
       CurrentTask = '''', TaskProgress = Some fmempty\<rparr>"
    by (simp_all add: NewDeploymentProgress_def time_Now_def demo_env_def)
  have cfg: "ResumeEnabled (cfg ?ra)" "\<not> ResumeEnabled (cfg ?rb)"
    "length (tasks ?ra) = 2" "length (tasks ?rb) = 2"
    by (simp_all add: demo_runner_def demo_cfg_def)
  from initProgressTracking_progress [where js = demo_json and r = ?ra and env = ?ea]
    initProgressTracking_progress [where js = demo_json and r = ?rb and env = ?eb]
  show ?thesis
    using path_a load_a new cfg by (auto split: prod.splits)
qed

section \<open>Rendering the progress\<close>

lemmas f64_eval = f64_round_def f64_exponent_def Let_def ilog2.simps pow2_def
  round_half_even_def f64_of_int_def f64_add_def f64_mul_def f64_div_def int_of_f64_def

lemmas Duration_eval = Duration_Hours_def Duration_Minutes_def Duration_Seconds_def
  Hour_def Minute_def Second_def signed_divide_int_def signed_modulo_int_def

lemma pow2_pos: "0 < pow2 e"
  by (simp add: pow2_def)

lemma round_half_even_nonneg: "0 \<le> m \<Longrightarrow> 0 \<le> round_half_even m"
  by (auto simp: round_half_even_def Let_def)

lemma f64_round_nonneg: "0 \<le> x \<Longrightarrow> 0 \<le> f64_round x"
  by (auto simp: f64_round_def Let_def pow2_pos round_half_even_nonneg less_imp_le
      intro!: mult_nonneg_nonneg)

lemma f64_of_int_30: "f64_of_int 30 = 30"
  by (simp add: f64_eval)

text \<open>
  The cells that the loop appends from index \<open>i\<close> on: a block of \<open>=\<close>, the marker
  when its index lies in the range, then spaces.
\<close>

lemma bar_loop_cells:
  "bar_loop i w cw bar =
     bar @ replicate (nat (min w cw - i)) CHR ''=''
         @ (if i \<le> cw \<and> cw < w then ''>'' else [])
         @ replicate (nat (w - max i (cw + 1))) CHR '' ''"
proof (induction i w cw bar rule: bar_loop.induct)
  case (1 i w cw bar)
  show ?case
  proof (cases "i < w")
    case False
    then show ?thesis by (simp add: bar_loop.simps [of i])
  next
    case True
    note lt = True
    have step: "bar_loop i w cw bar = bar_loop (i + 1) w cw
             (bar @ (if i < cw then ''=''
                     else if i = cw \<and> cw < w then ''>''
                     else '' ''))"
      using lt by (simp add: bar_loop.simps [of i])
    consider "i < cw" | "i = cw" | "cw < i" by linarith
    then show ?thesis
    proof cases
      case 1
      then have "nat (min w cw - i) = Suc (nat (min w cw - (i + 1)))"
        using lt by (auto simp: min_def)
      moreover have "max i (cw + 1) = max (i + 1) (cw + 1)" using 1 by simp
      ultimately show ?thesis
        using 1 lt "1.IH" [OF lt] step
        by (simp del: replicate_Suc add: replicate_Suc [symmetric])
    next
      case 2
      then show ?thesis
        using lt "1.IH" [OF lt] step by (simp add: min_def max_def)
    next
      case 3
      then have "nat (w - max i (cw + 1)) = Suc (nat (w - max (i + 1) (cw + 1)))"
        using lt by (auto simp: max_def)
      then show ?thesis
        using 3 lt "1.IH" [OF lt] step by (simp add: min_def)
    qed
  qed
qed

lemma progress_bar_cells:
  assumes "0 \<le> completedWidth pct"
  shows "progress_bar pct =
           ''['' @ replicate (nat (max 0 (min 30 (completedWidth pct)))) CHR ''=''
             @ (if nat (max 0 (min 30 (completedWidth pct))) < 30
                then ''>'' @ replicate (29 - nat (max 0 (min 30 (completedWidth pct)))) CHR '' ''
                else [])
             @ '']''"
proof (cases "completedWidth pct < 30")
  case True
  then have "nat (30 - max 0 (completedWidth pct + 1)) = 29 - nat (completedWidth pct)"
    using assms by (simp add: max_def)
  then show ?thesis
    using True assms by (simp add: progress_bar_def bar_loop_cells min_def max_def)
next
  case False
  then show ?thesis
    using assms by (simp add: progress_bar_def bar_loop_cells min_def max_def)
qed

text \<open>
  The error of one rounding, and of the roundings that the percentage and the bar width
  go through.
\<close>

lemma ilog2_bounds: "0 < n \<Longrightarrow> 2 ^ ilog2 n \<le> n \<and> n < 2 ^ Suc (ilog2 n)"
proof (induction n rule: ilog2.induct)
  case (1 n)
  show ?case
  proof (cases "n < 2")
    case True
    with 1(2) have "n = 1" by simp
    then show ?thesis by (simp add: ilog2.simps [of "Suc 0"])
  next
    case False
    then have pos: "0 < n div 2" by simp
    from 1(1) [OF False pos] have ih: "2 ^ ilog2 (n div 2) \<le> n div 2" "n div 2 < 2 ^ Suc (ilog2 (n div 2))"
      by simp_all
    have e: "ilog2 n = Suc (ilog2 (n div 2))" using False by (simp add: ilog2.simps [of n])
    have a: "2 * 2 ^ ilog2 (n div 2) \<le> n" using ih(1) by linarith
    have b: "n < 2 * 2 ^ Suc (ilog2 (n div 2))" using ih(2) by linarith
    from a b show ?thesis unfolding e by simp
  qed
qed

lemma ilog2_real:
  assumes "0 < n"
  shows "(2::real) ^ ilog2 n \<le> real n" "real n + 1 \<le> 2 ^ Suc (ilog2 n)"
proof -
  from ilog2_bounds [OF assms] have a: "2 ^ ilog2 n \<le> n" and b: "Suc n \<le> 2 ^ Suc (ilog2 n)"
    by simp_all
  from a have "real (2 ^ ilog2 n) \<le> real n" by (simp only: of_nat_le_iff)
  then show "(2::real) ^ ilog2 n \<le> real n" by simp
  from b have "real (Suc n) \<le> real (2 ^ Suc (ilog2 n))" by (simp only: of_nat_le_iff)
  then show "real n + 1 \<le> 2 ^ Suc (ilog2 n)" by simp
qed

lemma pow2_add: "pow2 (a + b) = pow2 a * pow2 b"
proof -
  have "pow2 e = power_int 2 e" for e
    by (simp add: pow2_def power_int_def field_simps)
  then show ?thesis by (simp add: power_int_add)
qed

lemma f64_exponent_le:
  assumes "0 < x"
  shows "pow2 (f64_exponent x) \<le> x"
proof (cases "1 \<le> x")
  case True
  then have n: "0 < nat \<lfloor>x\<rfloor>" by simp
  have "(2::real) ^ ilog2 (nat \<lfloor>x\<rfloor>) \<le> real (nat \<lfloor>x\<rfloor>)"
    by (rule ilog2_real(1) [OF n])
  also have "\<dots> \<le> x" using True by simp
  finally show ?thesis using True by (simp add: f64_exponent_def pow2_def)
next
  case False
  define b where "b = ilog2 (nat \<lfloor>1 / x\<rfloor>)"
  from False assms have "1 < 1 / x" by simp
  then have n: "0 < nat \<lfloor>1 / x\<rfloor>" by simp
  have "real (nat \<lfloor>1 / x\<rfloor>) + 1 \<le> 2 ^ Suc b"
    unfolding b_def by (rule ilog2_real(2) [OF n])
  moreover have "1 / x < real (nat \<lfloor>1 / x\<rfloor>) + 1" using n by simp linarith
  ultimately have up: "1 / x < 2 ^ Suc b" by linarith
  have "1 < x * 2 ^ Suc b"
    using up assms by (simp only: divide_less_eq) (simp add: mult.commute)
  then have lt: "1 / 2 ^ Suc b < x"
    by (simp add: divide_less_eq)
  show ?thesis
  proof (cases "x * pow2 (int b) = 1")
    case True
    have fe: "f64_exponent x = - int b"
      using False True by (simp add: f64_exponent_def Let_def b_def [symmetric])
    from True have "x = 1 / 2 ^ b" by (simp add: pow2_def field_simps)
    then show ?thesis unfolding fe by (simp add: pow2_def)
  next
    case F: False
    have "pow2 (- int b - 1) = 1 / 2 ^ Suc b"
      by (simp add: pow2_def nat_add_distrib)
    moreover have "f64_exponent x = - int b - 1"
      using False F by (simp add: f64_exponent_def Let_def b_def [symmetric])
    ultimately show ?thesis using lt by (simp del: power_Suc)
  qed
qed

lemma round_half_even_error: "\<bar>of_int (round_half_even m) - m\<bar> \<le> 1 / 2"
proof -
  have "of_int \<lfloor>m\<rfloor> \<le> m" "m < of_int \<lfloor>m\<rfloor> + 1" by linarith+
  then show ?thesis
    by (simp add: round_half_even_def Let_def abs_le_iff)
qed

lemma f64_round_error:
  assumes "0 \<le> x"
  shows "\<bar>f64_round x - x\<bar> \<le> x / 2 ^ 53"
proof (cases "x = 0")
  case True
  then show ?thesis by (simp add: f64_round_def)
next
  case False
  with assms have pos: "0 < x" by simp
  define e where "e = f64_exponent x - 52"
  define m where "m = round_half_even (x / pow2 e)"
  have pe: "0 < pow2 e" by (rule pow2_pos)
  have fr: "f64_round x = of_int m * pow2 e"
    using pos by (simp add: f64_round_def Let_def e_def m_def)
  have r: "\<bar>of_int m - x / pow2 e\<bar> \<le> 1 / 2"
    unfolding m_def by (rule round_half_even_error)
  have "\<bar>of_int m * pow2 e - x\<bar> = \<bar>(of_int m - x / pow2 e) * pow2 e\<bar>"
    using pe by (simp add: left_diff_distrib)
  also have "\<dots> = \<bar>of_int m - x / pow2 e\<bar> * pow2 e"
    using pe by (simp add: abs_mult)
  also have "\<dots> \<le> 1 / 2 * pow2 e"
    using r pe by (intro mult_right_mono) simp_all
  finally have a: "\<bar>f64_round x - x\<bar> \<le> 1 / 2 * pow2 e" by (simp add: fr)
  have "pow2 (f64_exponent x) = pow2 e * 2 ^ 52"
    using pow2_add [of e 52] by (simp add: e_def pow2_def)
  with f64_exponent_le [OF pos] have "pow2 e * 2 ^ 52 \<le> x" by simp
  then have "1 / 2 * pow2 e \<le> x / 2 ^ 53" by (simp add: field_simps)
  with a show ?thesis by linarith
qed

lemma unit_roundoff_range: "0 < unit_roundoff" "unit_roundoff < 1"
  by (simp_all add: unit_roundoff_def)

lemma f64_round_bounds:
  assumes "0 \<le> x"
  shows "x * (1 - unit_roundoff) \<le> f64_round x" "f64_round x \<le> x * (1 + unit_roundoff)"
proof -
  have "x / 2 ^ 53 = x * unit_roundoff" by (simp add: unit_roundoff_def)
  with f64_round_error [OF assms] have "\<bar>f64_round x - x\<bar> \<le> x * unit_roundoff"
    by (simp only:)
  then have "f64_round x - x \<le> x * unit_roundoff" "x - f64_round x \<le> x * unit_roundoff"
    by linarith+
  then show "x * (1 - unit_roundoff) \<le> f64_round x" "f64_round x \<le> x * (1 + unit_roundoff)"
    by (simp_all add: algebra_simps)
qed

lemma f64_round_step:
  assumes x: "0 \<le> x" and lo: "0 \<le> lo" and l: "x * lo \<le> v" and h: "v \<le> x * hi"
  shows "x * (lo * (1 - unit_roundoff)) \<le> f64_round v"
    and "f64_round v \<le> x * (hi * (1 + unit_roundoff))"
proof -
  have v: "0 \<le> v" using x lo l by (meson mult_nonneg_nonneg order_trans)
  have "x * lo * (1 - unit_roundoff) \<le> v * (1 - unit_roundoff)"
    using l unit_roundoff_range by (intro mult_right_mono) simp_all
  with f64_round_bounds(1) [OF v] show "x * (lo * (1 - unit_roundoff)) \<le> f64_round v"
    by (simp only: mult.assoc)
  have "v * (1 + unit_roundoff) \<le> x * hi * (1 + unit_roundoff)"
    using h unit_roundoff_range by (intro mult_right_mono) simp_all
  with f64_round_bounds(2) [OF v] show "f64_round v \<le> x * (hi * (1 + unit_roundoff))"
    by (simp only: mult.assoc)
qed

lemma scale_step:
  fixes x c lo hi v :: real
  assumes c: "0 \<le> c" and l: "x * lo \<le> v" and h: "v \<le> x * hi"
  shows "(x * c) * lo \<le> v * c" and "v * c \<le> (x * c) * hi"
proof -
  from mult_right_mono [OF l c] show "(x * c) * lo \<le> v * c" by (simp only: mult_ac)
  from mult_right_mono [OF h c] show "v * c \<le> (x * c) * hi" by (simp only: mult_ac)
qed

lemma quotient_bounds:
  fixes i n :: int
  assumes i: "0 \<le> i" and n: "0 < n"
  shows "real_of_int i / real_of_int n * ((1 - unit_roundoff) / (1 + unit_roundoff))
           \<le> f64_of_int i / f64_of_int n"
    and "f64_of_int i / f64_of_int n
           \<le> real_of_int i / real_of_int n * ((1 + unit_roundoff) / (1 - unit_roundoff))"
proof -
  note u = unit_roundoff_range
  have a: "real_of_int i * (1 - unit_roundoff) \<le> f64_of_int i"
      "f64_of_int i \<le> real_of_int i * (1 + unit_roundoff)"
    using f64_round_bounds [of "real_of_int i"] i by (simp_all add: f64_of_int_def)
  have b: "real_of_int n * (1 - unit_roundoff) \<le> f64_of_int n"
      "f64_of_int n \<le> real_of_int n * (1 + unit_roundoff)"
    using f64_round_bounds [of "real_of_int n"] n by (simp_all add: f64_of_int_def)
  have npos: "0 < real_of_int n * (1 - unit_roundoff)" using n u by simp
  then have bpos: "0 < f64_of_int n" using b(1) by linarith
  have a0: "0 \<le> real_of_int i * (1 - unit_roundoff)" using i u by simp
  have a1: "0 \<le> f64_of_int i" using a0 a(1) by linarith
  have "real_of_int i * (1 - unit_roundoff) / (real_of_int n * (1 + unit_roundoff))
          \<le> f64_of_int i / f64_of_int n"
    by (rule frac_le [OF a1 a(1) bpos b(2)])
  then show "real_of_int i / real_of_int n * ((1 - unit_roundoff) / (1 + unit_roundoff))
           \<le> f64_of_int i / f64_of_int n"
    by simp
  have a2: "0 \<le> real_of_int i * (1 + unit_roundoff)" using i u by simp
  have "f64_of_int i / f64_of_int n
          \<le> real_of_int i * (1 + unit_roundoff) / (real_of_int n * (1 - unit_roundoff))"
    by (rule frac_le [OF a2 a(2) npos b(1)])
  then show "f64_of_int i / f64_of_int n
           \<le> real_of_int i / real_of_int n * ((1 + unit_roundoff) / (1 - unit_roundoff))"
    by simp
qed

text \<open>The accumulated factors stay within \<open>2^-50\<close> of 1.\<close>

lemma factor_bounds:
  "1 - 1 / 2 ^ 50 \<le> (1 - unit_roundoff) / (1 + unit_roundoff) * (1 - unit_roundoff) * (1 - unit_roundoff)"
  "(1 + unit_roundoff) / (1 - unit_roundoff) * (1 + unit_roundoff) * (1 + unit_roundoff) \<le> 1 + 1 / 2 ^ 50"
  "1 - 1 / 2 ^ 50 \<le> (1 - unit_roundoff) / (1 + unit_roundoff) * (1 - unit_roundoff) * (1 - unit_roundoff)
       * (1 - unit_roundoff) * (1 - unit_roundoff)"
  "(1 + unit_roundoff) / (1 - unit_roundoff) * (1 + unit_roundoff) * (1 + unit_roundoff)
       * (1 + unit_roundoff) * (1 + unit_roundoff) \<le> 1 + 1 / 2 ^ 50"
  by (simp_all add: unit_roundoff_def)

lemma widen:
  fixes x lo lo' hi hi' v :: real
  assumes "0 \<le> x" "lo' \<le> lo" "hi \<le> hi'" "x * lo \<le> v" "v \<le> x * hi"
  shows "x * lo' \<le> v" "v \<le> x * hi'"
proof -
  have "x * lo' \<le> x * lo" using assms(1,2) by (rule mult_left_mono [rotated])
  with assms(4) show "x * lo' \<le> v" by linarith
  have "x * hi \<le> x * hi'" using assms(1,3) by (rule mult_left_mono [rotated])
  with assms(5) show "v \<le> x * hi'" by linarith
qed

lemma float_chain:
  fixes i n :: int
  assumes i: "0 \<le> i" and n: "0 < n"
  defines "X \<equiv> real_of_int i / real_of_int n"
  defines "p \<equiv> f64_mul (f64_div (f64_of_int i) (f64_of_int n)) 100"
  defines "r \<equiv> f64_div (f64_mul 30 p) 100"
  shows "X * 100 * (1 - 1 / 2 ^ 50) \<le> p" "p \<le> X * 100 * (1 + 1 / 2 ^ 50)"
    "X * 30 * (1 - 1 / 2 ^ 50) \<le> r" "r \<le> X * 30 * (1 + 1 / 2 ^ 50)"
proof -
  note u = unit_roundoff_range
  have X: "0 \<le> X" using i n by (simp add: X_def)
  define l1 where "l1 = (1 - unit_roundoff) / (1 + unit_roundoff)"
  define h1 where "h1 = (1 + unit_roundoff) / (1 - unit_roundoff)"
  have l1: "0 \<le> l1" using u by (simp add: l1_def)
  note q0 = quotient_bounds [OF i n, folded X_def l1_def h1_def]
  define q where "q = f64_div (f64_of_int i) (f64_of_int n)"
  have q: "X * (l1 * (1 - unit_roundoff)) \<le> q" "q \<le> X * (h1 * (1 + unit_roundoff))"
    unfolding q_def f64_div_def by (rule f64_round_step [OF X l1 q0])+
  define l2 where "l2 = l1 * (1 - unit_roundoff)"
  define h2 where "h2 = h1 * (1 + unit_roundoff)"
  have l2: "0 \<le> l2" using l1 u by (simp add: l2_def)
  have X100: "0 \<le> X * 100" using X by simp
  have q100: "X * 100 * l2 \<le> q * 100" "q * 100 \<le> X * 100 * h2"
    using scale_step [of 100, OF _ q] by (simp_all add: l2_def h2_def)
  have p: "X * 100 * (l2 * (1 - unit_roundoff)) \<le> p" "p \<le> X * 100 * (h2 * (1 + unit_roundoff))"
    unfolding p_def q_def [symmetric] f64_mul_def by (rule f64_round_step [OF X100 l2 q100])+
  define l3 where "l3 = l2 * (1 - unit_roundoff)"
  define h3 where "h3 = h2 * (1 + unit_roundoff)"
  have l3: "0 \<le> l3" using l2 u by (simp add: l3_def)
  have lh3: "1 - 1 / 2 ^ 50 \<le> l3" "h3 \<le> 1 + 1 / 2 ^ 50"
    using factor_bounds(1,2) by (simp_all add: l3_def l2_def l1_def h3_def h2_def h1_def)
  from widen [OF X100 lh3 p [folded l3_def h3_def]]
  show "X * 100 * (1 - 1 / 2 ^ 50) \<le> p" "p \<le> X * 100 * (1 + 1 / 2 ^ 50)" .
  have X3000: "0 \<le> X * 100 * 30" using X by simp
  have p30: "X * 100 * 30 * l3 \<le> 30 * p" "30 * p \<le> X * 100 * 30 * h3"
    using scale_step [of 30, OF _ p [folded l3_def h3_def]] by (simp_all add: mult.commute)
  define t where "t = f64_mul 30 p"
  have t: "X * 100 * 30 * (l3 * (1 - unit_roundoff)) \<le> t" "t \<le> X * 100 * 30 * (h3 * (1 + unit_roundoff))"
    unfolding t_def f64_mul_def by (rule f64_round_step [OF X3000 l3 p30])+
  define l4 where "l4 = l3 * (1 - unit_roundoff)"
  define h4 where "h4 = h3 * (1 + unit_roundoff)"
  have l4: "0 \<le> l4" using l3 u by (simp add: l4_def)
  have X30: "0 \<le> X * 30" using X by simp
  have t100: "X * 30 * l4 \<le> t / 100" "t / 100 \<le> X * 30 * h4"
    using scale_step [of "1 / 100", OF _ t [folded l4_def h4_def]] by simp_all
  have r: "X * 30 * (l4 * (1 - unit_roundoff)) \<le> r" "r \<le> X * 30 * (h4 * (1 + unit_roundoff))"
    unfolding r_def t_def [symmetric] f64_div_def by (rule f64_round_step [OF X30 l4 t100])+
  have lh5: "1 - 1 / 2 ^ 50 \<le> l4 * (1 - unit_roundoff)" "h4 * (1 + unit_roundoff) \<le> 1 + 1 / 2 ^ 50"
    using factor_bounds(3,4)
    by (simp_all add: l4_def l3_def l2_def l1_def h4_def h3_def h2_def h1_def)
  from widen [OF X30 lh5 r]
  show "X * 30 * (1 - 1 / 2 ^ 50) \<le> r" "r \<le> X * 30 * (1 + 1 / 2 ^ 50)" .
qed

lemma floor_fill:
  fixes i n :: int
  assumes i: "0 \<le> i" and lt: "i < n"
  defines "r \<equiv> f64_div (f64_mul 30 (f64_mul (f64_div (f64_of_int i) (f64_of_int n)) 100)) 100"
  defines "k \<equiv> (30 * i) div n"
  shows "0 \<le> \<lfloor>r\<rfloor>" "\<lfloor>r\<rfloor> \<le> 30" "k - 1 \<le> \<lfloor>r\<rfloor>" "\<lfloor>r\<rfloor> \<le> k + 1"
    "n \<le> 2 ^ 45 \<Longrightarrow> \<lfloor>r\<rfloor> \<le> k"
    "n \<le> 2 ^ 45 \<Longrightarrow> \<not> n dvd 30 * i \<Longrightarrow> \<lfloor>r\<rfloor> = k"
proof -
  have n: "0 < n" using i lt by simp
  then have rn: "0 < real_of_int n" by simp
  define x where "x = real_of_int i / real_of_int n * 30"
  define m where "m = (30 * i) mod n"
  define e :: real where "e = 30 / 2 ^ 50"
  have m: "0 \<le> m" "m \<le> n - 1" using n by (simp_all add: m_def) 
  have "30 * i = k * n + m" by (simp add: k_def m_def)
  then have "real_of_int (30 * i) = real_of_int (k * n + m)" by (simp only:)
  then have "real_of_int i * 30 = real_of_int k * real_of_int n + real_of_int m" by simp
  then have xk: "x = real_of_int k + real_of_int m / real_of_int n"
    using rn by (simp add: x_def field_simps)
  have x0: "0 \<le> x" using i n by (simp add: x_def)
  have "real_of_int i / real_of_int n < 1" using lt n by simp
  then have "real_of_int i / real_of_int n * 30 < 1 * 30"
    by (rule mult_strict_right_mono) simp
  then have x30: "x < 30" by (simp only: x_def mult_1)
  define d :: real where "d = 1 / 2 ^ 50"
  note ch = float_chain(3,4) [OF i n, folded r_def x_def d_def]
  have d0: "0 \<le> d" by (simp add: d_def)
  have "x * d \<le> 30 * d" using x30 d0 by (intro mult_right_mono) simp_all
  also have "30 * d = e" by (simp add: e_def d_def)
  finally have xe: "x * d \<le> e" .
  have ex: "x * (1 - d) = x - x * d" "x * (1 + d) = x + x * d"
    by (simp_all only: right_diff_distrib distrib_left mult_1_right)
  have lo: "x - e \<le> r" using ch(1) xe unfolding ex by linarith
  have hi: "r \<le> x + e" using ch(2) xe unfolding ex by linarith
  have e: "0 < e" "e < 1" by (simp_all add: e_def)
  have xd: "0 \<le> x * (1 - d)" using x0 by (intro mult_nonneg_nonneg) (simp_all add: d_def)
  from xd ch(1) have r0: "0 \<le> r" by (rule order_trans)
  then show "0 \<le> \<lfloor>r\<rfloor>" by simp
  have "r < 31" using hi x30 e by linarith
  then have "\<lfloor>r\<rfloor> < 31" by (simp add: floor_less_iff)
  then show "\<lfloor>r\<rfloor> \<le> 30" by simp
  have mn0: "0 \<le> real_of_int m / real_of_int n" using m rn by simp
  have "real_of_int m \<le> real_of_int n - 1" using m(2) by linarith
  then have "real_of_int m / real_of_int n \<le> (real_of_int n - 1) / real_of_int n"
    using rn by (simp add: divide_right_mono)
  also have "\<dots> = 1 - 1 / real_of_int n" using rn by (simp add: field_simps)
  finally have mn1: "real_of_int m / real_of_int n \<le> 1 - 1 / real_of_int n" .
  have inv0: "0 < 1 / real_of_int n" using rn by simp
  have "real_of_int k - 1 \<le> r" using lo xk mn0 e by linarith
  then have "real_of_int (k - 1) \<le> r" by simp
  then show "k - 1 \<le> \<lfloor>r\<rfloor>" by (simp only: le_floor_iff)
  have "r < real_of_int k + 2" using hi xk mn1 inv0 e by linarith
  then have "r < real_of_int (k + 2)" by simp
  then have "\<lfloor>r\<rfloor> < k + 2" by (simp only: floor_less_iff)
  then show "\<lfloor>r\<rfloor> \<le> k + 1" by simp
  {
    assume small: "n \<le> 2 ^ 45"
    then have "real_of_int n \<le> real_of_int (2 ^ 45)" by (simp only: of_int_le_iff)
    then have "real_of_int n \<le> 2 ^ 45" by simp
    then have "real_of_int n * e \<le> 2 ^ 45 * e" using e by simp
    also have "\<dots> < 1" by (simp add: e_def)
    finally have "real_of_int n * e < 1" .
    then have eps: "e < 1 / real_of_int n"
      using rn by (simp add: field_simps)
    have "r < real_of_int k + 1" using hi xk mn1 eps by linarith
    then have "r < real_of_int (k + 1)" by simp
    then have "\<lfloor>r\<rfloor> < k + 1" by (simp only: floor_less_iff)
    then show up: "\<lfloor>r\<rfloor> \<le> k" by simp
    assume "\<not> n dvd 30 * i"
    then have "m \<noteq> 0" by (simp add: m_def dvd_eq_mod_eq_0)
    with m have "1 \<le> m" by simp
    then have "1 \<le> real_of_int m" by simp
    then have "1 / real_of_int n \<le> real_of_int m / real_of_int n"
      using rn by (simp add: divide_right_mono)
    then have "real_of_int k \<le> r" using lo xk eps by linarith
    then have "k \<le> \<lfloor>r\<rfloor>" by (simp only: le_floor_iff)
    with up show "\<lfloor>r\<rfloor> = k" by simp
  }
qed

lemma percentage_error:
  fixes i n :: int
  assumes i: "0 \<le> i" and n: "0 < n"
  shows "\<bar>f64_mul (f64_div (f64_of_int i) (f64_of_int n)) 100 - real_of_int i / real_of_int n * 100\<bar>
           \<le> real_of_int i / real_of_int n * 100 / 2 ^ 50"
proof -
  define x where "x = real_of_int i / real_of_int n * 100"
  define d :: real where "d = 1 / 2 ^ 50"
  define p where "p = f64_mul (f64_div (f64_of_int i) (f64_of_int n)) 100"
  note ch = float_chain(1,2) [OF i n, folded p_def x_def d_def]
  have ex: "x * (1 - d) = x - x * d" "x * (1 + d) = x + x * d"
    by (simp_all only: right_diff_distrib distrib_left mult_1_right)
  have "x - x * d \<le> p" "p \<le> x + x * d" using ch unfolding ex by simp_all
  then have "\<bar>p - x\<bar> \<le> x * d" by linarith
  then show ?thesis by (simp add: p_def x_def d_def)
qed

lemma exact_fill:
  fixes i n :: int
  shows "\<lfloor>30 * (real_of_int i / real_of_int n * 100) / 100\<rfloor> = (30 * i) div n"
proof -
  have "30 * (real_of_int i / real_of_int n * 100) / 100 = real_of_int (30 * i) / real_of_int n"
    by simp
  then show ?thesis by (simp only: floor_divide_of_int_eq)
qed

text \<open>
  Claim C7, as the code has it. The percentage is \<open>taskIndex / TotalTasks * 100\<close> as
  float64 arithmetic computes it, every operation rounded to the nearest double, and 0
  when \<open>TotalTasks\<close> is 0; it lies within a relative error of \<open>2^-50\<close> of the exact
  quotient. For \<open>0 \<le> taskIndex < TotalTasks\<close>, in bar style, the number of filled cells
  is the floor of the float64 value of \<open>30 * percentage / 100\<close>. It lies within
  \<open>[0, 30]\<close> and differs from the floor \<open>k\<close> of the exact value by at most one. For
  \<open>TotalTasks\<close> up to \<open>2^45\<close> it is \<open>k\<close>, or \<open>k - 1\<close>, which only happens when
  \<open>30 * taskIndex\<close> is a multiple of \<open>TotalTasks\<close>. The marker \<open>>\<close> follows the filled
  cells when fewer than 30 are filled, and spaces fill the rest of the 30 cells.
\<close>

theorem DisplayProgress_bar_cells:
  "(TotalTasks dp = 0 \<longrightarrow> percentage dp taskIndex = 0)
   \<and> (0 < TotalTasks dp \<and> 0 \<le> taskIndex \<and> taskIndex < TotalTasks dp \<longrightarrow>
        (let pct = percentage dp taskIndex;
             exact = real_of_int taskIndex / real_of_int (TotalTasks dp) * 100;
             filled = completedWidth pct;
             k = \<lfloor>30 * exact / 100\<rfloor>
         in pct = f64_mul (f64_div (f64_of_int taskIndex) (f64_of_int (TotalTasks dp))) 100
            \<and> \<bar>pct - exact\<bar> \<le> exact / 2 ^ 50
            \<and> filled = \<lfloor>f64_div (f64_mul 30 pct) 100\<rfloor>
            \<and> 0 \<le> filled \<and> filled \<le> 30
            \<and> k - 1 \<le> filled \<and> filled \<le> k + 1
            \<and> (TotalTasks dp \<le> 2 ^ 45 \<longrightarrow>
                 filled \<le> k \<and> (\<not> TotalTasks dp dvd 30 * taskIndex \<longrightarrow> filled = k))
            \<and> DisplayProgress dp taskIndex taskName ''bar'' colorAttr =
                (if 0 \<le> colorAttr then Colored [colorAttr] else (\<lambda>message. message))
                  (Sprintf ''%s %.1f%% (%d/%d) Current: %s''
                     [StrArg (''['' @ replicate (nat filled) CHR ''=''
                                @ (if filled < 30
                                   then ''>'' @ replicate (29 - nat filled) CHR '' '' else [])
                                @ '']''),
                      FloatArg pct, IntArg (taskIndex + 1), IntArg (TotalTasks dp),
                      StrArg taskName])))"
proof (intro conjI impI)
  assume "TotalTasks dp = 0"
  then show "percentage dp taskIndex = 0" by (simp add: percentage_def)
next
  assume dom: "0 < TotalTasks dp \<and> 0 \<le> taskIndex \<and> taskIndex < TotalTasks dp"
  then have i: "0 \<le> taskIndex" and lt: "taskIndex < TotalTasks dp" and n: "0 < TotalTasks dp"
    by simp_all
  define pct where "pct = percentage dp taskIndex"
  define exact where "exact = real_of_int taskIndex / real_of_int (TotalTasks dp) * 100"
  define filled where "filled = completedWidth pct"
  define k where "k = \<lfloor>30 * exact / 100\<rfloor>"
  have p: "pct = f64_mul (f64_div (f64_of_int taskIndex) (f64_of_int (TotalTasks dp))) 100"
    using n by (simp add: percentage_def pct_def)
  have err: "\<bar>pct - exact\<bar> \<le> exact / 2 ^ 50"
    unfolding p exact_def by (rule percentage_error [OF i n])
  have kd: "k = (30 * taskIndex) div TotalTasks dp"
    unfolding k_def exact_def by (rule exact_fill)
  note ff = floor_fill [OF i lt, folded p kd]
  have r0: "0 \<le> f64_div (f64_mul 30 pct) 100"
    using ff(1) by linarith
  then have cw: "filled = \<lfloor>f64_div (f64_mul 30 pct) 100\<rfloor>"
    by (simp add: filled_def completedWidth_def f64_of_int_30 int_of_f64_def)
  note fb = ff [folded cw]
  have bar: "progress_bar pct =
       ''['' @ replicate (nat filled) CHR ''=''
         @ (if filled < 30 then ''>'' @ replicate (29 - nat filled) CHR '' '' else [])
         @ '']''"
  proof -
    have c0: "0 \<le> completedWidth pct" using fb(1) by (simp only: filled_def)
    have m: "nat (max 0 (min 30 (completedWidth pct))) = nat filled"
      using fb(1,2) by (simp add: filled_def)
    have l: "(nat filled < 30) = (filled < 30)" using fb(1) by linarith
    show ?thesis by (simp only: progress_bar_cells [OF c0] m l)
  qed
  have disp: "DisplayProgress dp taskIndex taskName ''bar'' colorAttr =
                (if 0 \<le> colorAttr then Colored [colorAttr] else (\<lambda>message. message))
                  (Sprintf ''%s %.1f%% (%d/%d) Current: %s''
                     [StrArg (''['' @ replicate (nat filled) CHR ''=''
                                @ (if filled < 30
                                   then ''>'' @ replicate (29 - nat filled) CHR '' '' else [])
                                @ '']''),
                      FloatArg pct, IntArg (taskIndex + 1), IntArg (TotalTasks dp),
                      StrArg taskName])"
    using bar by (simp add: DisplayProgress_def Let_def pct_def [symmetric])
  have small: "TotalTasks dp \<le> 2 ^ 45 \<longrightarrow>
                 filled \<le> k \<and> (\<not> TotalTasks dp dvd 30 * taskIndex \<longrightarrow> filled = k)"
    using fb(5,6) by blast
  show "let pct = percentage dp taskIndex;
             exact = real_of_int taskIndex / real_of_int (TotalTasks dp) * 100;
             filled = completedWidth pct;
             k = \<lfloor>30 * exact / 100\<rfloor>
         in pct = f64_mul (f64_div (f64_of_int taskIndex) (f64_of_int (TotalTasks dp))) 100
            \<and> \<bar>pct - exact\<bar> \<le> exact / 2 ^ 50
            \<and> filled = \<lfloor>f64_div (f64_mul 30 pct) 100\<rfloor>
            \<and> 0 \<le> filled \<and> filled \<le> 30
            \<and> k - 1 \<le> filled \<and> filled \<le> k + 1
            \<and> (TotalTasks dp \<le> 2 ^ 45 \<longrightarrow>
                 filled \<le> k \<and> (\<not> TotalTasks dp dvd 30 * taskIndex \<longrightarrow> filled = k))
            \<and> DisplayProgress dp taskIndex taskName ''bar'' colorAttr =
                (if 0 \<le> colorAttr then Colored [colorAttr] else (\<lambda>message. message))
                  (Sprintf ''%s %.1f%% (%d/%d) Current: %s''
                     [StrArg (''['' @ replicate (nat filled) CHR ''=''
                                @ (if filled < 30
                                   then ''>'' @ replicate (29 - nat filled) CHR '' '' else [])
                                @ '']''),
                      FloatArg pct, IntArg (taskIndex + 1), IntArg (TotalTasks dp),
                      StrArg taskName])"
    unfolding Let_def pct_def [symmetric] exact_def [symmetric] filled_def [symmetric]
      k_def [symmetric]
    using p err cw fb(1-4) small disp by (intro conjI)
qed

theorem DisplayProgress_bar_cells_witness:
  "TotalTasks (demo_progress ''A'') = 0 \<and> percentage (demo_progress ''A'') 0 = 0
   \<and> (0::int) < 7 \<and> (0::int) \<le> 2 \<and> (2::int) < 7 \<and> (7::int) \<le> 2 ^ 45
   \<and> \<not> (7::int) dvd 30 * 2
   \<and> completedWidth (percentage ((demo_progress ''A'')\<lparr>TotalTasks := 7\<rparr>) 2) = 8
   \<and> DisplayProgress ((demo_progress ''A'')\<lparr>TotalTasks := 7\<rparr>) 2 ''B'' ''bar'' (- 1) =
       Sprintf ''%s %.1f%% (%d/%d) Current: %s''
         [StrArg ''[========>                     ]'',
          FloatArg (percentage ((demo_progress ''A'')\<lparr>TotalTasks := 7\<rparr>) 2),
          IntArg 3, IntArg 7, StrArg ''B'']"
proof -
  have t: "TotalTasks ((demo_progress ''A'')\<lparr>TotalTasks := 7\<rparr>) = 7"
    "TotalTasks (demo_progress ''A'') = 0"
    by (simp_all add: demo_progress_def)
  have zero: "percentage (demo_progress ''A'') 0 = 0"
    using DisplayProgress_bar_cells [of "demo_progress ''A''" 0] t(2) by simp
  have dom: "(0::int) < 7 \<and> (0::int) \<le> 2 \<and> (2::int) < 7" by simp
  note inst = DisplayProgress_bar_cells
    [of "(demo_progress ''A'')\<lparr>TotalTasks := 7\<rparr>" 2 "''B''" "- 1",
      THEN conjunct2, unfolded Let_def t, rule_format, OF dom]
  note rest = inst [THEN conjunct2, THEN conjunct2, THEN conjunct2, THEN conjunct2,
      THEN conjunct2, THEN conjunct2, THEN conjunct2]
  have k: "\<lfloor>30 * (real_of_int 2 / real_of_int 7 * 100) / 100\<rfloor> = 8"
    by simp
  have small: "(7::int) \<le> 2 ^ 45" and nd: "\<not> (7::int) dvd 30 * 2" by simp_all
  from rest [THEN conjunct1, rule_format, OF small, THEN conjunct2, rule_format, OF nd]
  have cw: "completedWidth (percentage ((demo_progress ''A'')\<lparr>TotalTasks := 7\<rparr>) 2) = 8"
    by (simp only: k)
  from rest [THEN conjunct2]
  have disp: "DisplayProgress ((demo_progress ''A'')\<lparr>TotalTasks := 7\<rparr>) 2 ''B'' ''bar'' (- 1) =
       Sprintf ''%s %.1f%% (%d/%d) Current: %s''
         [StrArg ''[========>                     ]'',
          FloatArg (percentage ((demo_progress ''A'')\<lparr>TotalTasks := 7\<rparr>) 2),
          IntArg 3, IntArg 7, StrArg ''B'']"
    by (simp add: cw eval_nat_numeral)
  from t(2) zero dom small nd cw disp show ?thesis by (intro conjI) simp_all
qed

text \<open>
  The claim as stated, with the formulas read in exact arithmetic, fails for the task at
  index 1 of 3: the percentage is not \<open>1 / 3 * 100\<close>, and 9 cells are filled where
  the floor of \<open>30 * percentage / 100\<close> is 10. Read with the exact floor applied to the
  float64 percentage, it fails for the task at index 7 of 15: 14 cells are filled where
  that floor is 13.
\<close>

theorem DisplayProgress_fill_counterexample:
  "percentage ((demo_progress ''A'')\<lparr>TotalTasks := 3\<rparr>) 1 \<noteq> 1 / 3 * 100
   \<and> completedWidth (percentage ((demo_progress ''A'')\<lparr>TotalTasks := 3\<rparr>) 1) = 9
   \<and> \<lfloor>30 * (1 / 3 * 100) / 100 :: real\<rfloor> = 10
   \<and> completedWidth (percentage ((demo_progress ''A'')\<lparr>TotalTasks := 15\<rparr>) 7) = 14
   \<and> \<lfloor>30 * percentage ((demo_progress ''A'')\<lparr>TotalTasks := 15\<rparr>) 7 / 100\<rfloor> = 13"
  by (simp add: completedWidth_def percentage_def demo_progress_def f64_eval)

text \<open>
  Claim C8, as the code has it. The duration string lists, in the order hours, minutes,
  seconds, exactly the units whose value is positive, each as the number and the name of
  the unit, separated by spaces: a unit of value zero is omitted wherever it stands, not
  only in front. When no unit is positive, the string is the seconds alone.
\<close>

theorem formatDuration_positive_units:
  "formatDuration d =
     (let hours = int_of_f64 (Duration_Hours d);
          minutes = int_of_f64 (Duration_Minutes d) smod 60;
          seconds = int_of_f64 (Duration_Seconds d) smod 60;
          shown = filter (\<lambda>(n, unit). 0 < n)
                    [(hours, ''hours''), (minutes, ''minutes''), (seconds, ''seconds'')]
      in strings_Join
           (map (\<lambda>(n, unit). fmt_d n @ '' '' @ unit)
              (if shown = [] then [(seconds, ''seconds'')] else shown))
           '' '')"
  by (simp add: formatDuration_def Let_def)

text \<open>
  For one hour, no minutes and thirty seconds the minutes are not displayed, against the
  claim as stated.
\<close>

theorem formatDuration_inner_zero_counterexample:
  "formatDuration (1 * Hour + 0 * Minute + 30 * Second) = ''1 hours 30 seconds''
   \<and> formatDuration (1 * Hour + 0 * Minute + 30 * Second) \<noteq> ''1 hours 0 minutes 30 seconds''"
  by (simp add: formatDuration_def f64_eval Duration_eval fmt_d_def nat_digits.simps)

section \<open>The run\<close>

subsection \<open>One iteration\<close>

lemma save_or_warn_cases:
  assumes "save_or_warn fmt js c pf dp env = (env', evs)"
  shows "world env' = world env \<and> ticks env' = ticks env \<and> clock env' = clock env
       \<and> (if ResumeEnabled c
          then \<exists>e. evs = Save pf dp e # (case e of None \<Rightarrow> [] | Some err \<Rightarrow> [Log Warn (Sprintf fmt [ErrArg err])])
          else evs = [] \<and> env' = env)"
  using assms
  by (auto simp: save_or_warn_def saveProgress_def Let_def split: prod.splits option.splits if_splits)

lemma save_or_warn_events:
  assumes "save_or_warn fmt js c pf dp env = (env', evs)" "ev \<in> set evs"
  shows "ResumeEnabled c \<and> ((\<exists>e. ev = Save pf dp e) \<or> (\<exists>m. ev = Log Warn m))"
  using save_or_warn_cases [OF assms(1)] assms(2)
  by (cases "ResumeEnabled c") (auto split: option.splits)

lemma run_task_skip:
  assumes "ResumeEnabled c" "is_completed dp (task_Name t)"
  shows "run_task js c pf hc uc i t dp env =
          (Inr None, dp, env,
               [Log Info (Sprintf ''Skipping completed task %s (%d/%d)''
                  [StrArg (task_Name t), IntArg (int i + 1), IntArg (TotalTasks dp)])])"
  using assms by (simp add: run_task_def is_completed_def)

lemma run_task_nil_map:
  assumes "\<not> (ResumeEnabled c \<and> is_completed dp (task_Name t))" "TaskProgress dp = None"
  shows "run_task js c pf hc uc i t dp env =
          (Inl NilMapAssignment, dp\<lparr>CurrentTask := task_Name t\<rparr>, env\<lparr>ticks := Suc (ticks env)\<rparr>,
           start_events c hc uc i (task_Name t) dp)"
  using assms
  by (simp add: run_task_def is_completed_def map_assign_def time_Now_def Let_def
      start_line_def start_events_def)

lemma run_task_run:
  assumes nskip: "\<not> (ResumeEnabled c \<and> is_completed dp (task_Name t))"
    and m: "TaskProgress dp = Some m"
    and sv: "save_or_warn ''Failed to save progress: %v'' js c pf
               (start_progress (task_Name t) (clock env (ticks env)) m dp)
               (env\<lparr>ticks := Suc (ticks env)\<rparr>) = (env2, evs2)"
    and rn: "task_Run t (world env2) = (res, w)"
  shows "run_task js c pf hc uc i t dp env =
          (case res of
             Some err \<Rightarrow>
               (Inr (Some (Annotatef err (''run task '' @ task_Name t))),
                start_progress (task_Name t) (clock env (ticks env)) m dp,
                env2\<lparr>world := w\<rparr>,
                start_events c hc uc i (task_Name t) dp @ evs2 @ [Invoke i (Some err)])
           | None \<Rightarrow>
               (let dp4 = finish_progress (task_Name t) (clock env (ticks env))
                            (clock env2 (ticks env2)) m dp;
                    (env5, evs5) = save_or_warn ''Failed to save progress: %v'' js c pf dp4
                                     (env2\<lparr>world := w, ticks := Suc (ticks env2)\<rparr>)
                in (Inr None, dp4, env5,
                    start_events c hc uc i (task_Name t) dp @ evs2 @ [Invoke i None] @ evs5)))"
  using assms
  by (simp add: run_task_def is_completed_def map_assign_def map_lookup_def time_Now_def Let_def
      start_line_def start_events_def started_def start_progress_def finish_progress_def
      split: option.splits prod.splits)

lemma run_task_cases [consumes 1, case_names skip nilmap fail ok]:
  assumes run: "run_task js c pf hc uc i t dp env = (res, dp', env', evs)"
  obtains
    (skip) "ResumeEnabled c" "is_completed dp (task_Name t)" "res = Inr None" "dp' = dp" "env' = env"
      "evs = [Log Info (Sprintf ''Skipping completed task %s (%d/%d)''
                  [StrArg (task_Name t), IntArg (int i + 1), IntArg (TotalTasks dp)])]"
  | (nilmap) "\<not> (ResumeEnabled c \<and> is_completed dp (task_Name t))" "TaskProgress dp = None"
      "res = Inl NilMapAssignment" "dp' = dp\<lparr>CurrentTask := task_Name t\<rparr>"
      "env' = env\<lparr>ticks := Suc (ticks env)\<rparr>"
      "evs = start_events c hc uc i (task_Name t) dp"
  | (fail) m env2 evs2 w err where
      "\<not> (ResumeEnabled c \<and> is_completed dp (task_Name t))" "TaskProgress dp = Some m"
      "save_or_warn ''Failed to save progress: %v'' js c pf
         (start_progress (task_Name t) (clock env (ticks env)) m dp)
         (env\<lparr>ticks := Suc (ticks env)\<rparr>) = (env2, evs2)"
      "task_Run t (world env2) = (Some err, w)"
      "res = Inr (Some (Annotatef err (''run task '' @ task_Name t)))"
      "dp' = start_progress (task_Name t) (clock env (ticks env)) m dp"
      "env' = env2\<lparr>world := w\<rparr>"
      "evs = start_events c hc uc i (task_Name t) dp @ evs2 @ [Invoke i (Some err)]"
  | (ok) m env2 evs2 w evs5 where
      "\<not> (ResumeEnabled c \<and> is_completed dp (task_Name t))" "TaskProgress dp = Some m"
      "save_or_warn ''Failed to save progress: %v'' js c pf
         (start_progress (task_Name t) (clock env (ticks env)) m dp)
         (env\<lparr>ticks := Suc (ticks env)\<rparr>) = (env2, evs2)"
      "task_Run t (world env2) = (None, w)"
      "res = Inr None"
      "dp' = finish_progress (task_Name t) (clock env (ticks env)) (clock env2 (ticks env2)) m dp"
      "save_or_warn ''Failed to save progress: %v'' js c pf dp'
         (env2\<lparr>world := w, ticks := Suc (ticks env2)\<rparr>) = (env', evs5)"
      "evs = start_events c hc uc i (task_Name t) dp @ evs2 @ [Invoke i None] @ evs5"
proof -
  consider (a) "ResumeEnabled c \<and> is_completed dp (task_Name t)"
    | (b) "\<not> (ResumeEnabled c \<and> is_completed dp (task_Name t))" "TaskProgress dp = None"
    | (c) m where "\<not> (ResumeEnabled c \<and> is_completed dp (task_Name t))" "TaskProgress dp = Some m"
    by (cases "TaskProgress dp") auto
  then show thesis
  proof cases
    case a
    with run show thesis by (intro skip) (auto simp: run_task_skip)
  next
    case b
    with run show thesis by (intro nilmap) (auto simp: run_task_nil_map)
  next
    case c
    obtain env2 evs2 where sv: "save_or_warn ''Failed to save progress: %v'' js c pf
         (start_progress (task_Name t) (clock env (ticks env)) m dp)
         (env\<lparr>ticks := Suc (ticks env)\<rparr>) = (env2, evs2)"
      by (cases "save_or_warn ''Failed to save progress: %v'' js c pf
         (start_progress (task_Name t) (clock env (ticks env)) m dp)
         (env\<lparr>ticks := Suc (ticks env)\<rparr>)")
    obtain res0 w where rn: "task_Run t (world env2) = (res0, w)"
      by (cases "task_Run t (world env2)")
    note eq = run_task_run [OF c(1) c(2) sv rn, of hc uc i]
    show thesis
    proof (cases res0)
      case (Some err)
      with run eq c sv rn show thesis
        by (intro fail [of m env2 evs2 err w]) auto
    next
      case None
      obtain env5 evs5 where sv5: "save_or_warn ''Failed to save progress: %v'' js c pf
           (finish_progress (task_Name t) (clock env (ticks env)) (clock env2 (ticks env2)) m dp)
           (env2\<lparr>world := w, ticks := Suc (ticks env2)\<rparr>) = (env5, evs5)"
        by (cases "save_or_warn ''Failed to save progress: %v'' js c pf
           (finish_progress (task_Name t) (clock env (ticks env)) (clock env2 (ticks env2)) m dp)
           (env2\<lparr>world := w, ticks := Suc (ticks env2)\<rparr>)")
      with None run eq c sv rn show thesis
        by (intro ok [of m env2 evs2 w evs5]) (auto simp: Let_def)
    qed
  qed
qed

text \<open>Lookups in the progress after the start and after the success of a task.\<close>

lemma map_lookup_start_progress:
  "TaskProgress dp = Some m \<Longrightarrow>
   map_lookup (start_progress name now m dp) key =
     (if key = name then (started name now, True) else map_lookup dp key)"
  by (simp add: map_lookup_def start_progress_def)

lemma map_lookup_finish_progress:
  "TaskProgress dp = Some m \<Longrightarrow>
   map_lookup (finish_progress name now now' m dp) key =
     (if key = name then ((started name now)\<lparr>Completed := True, TaskEndTime := now'\<rparr>, True)
      else map_lookup dp key)"
  by (simp add: map_lookup_def finish_progress_def)

lemma start_events_set:
  "set (start_events c hc uc i name dp) =
     {SetCurrentTask name, Log Info (start_line c hc uc i name (dp\<lparr>CurrentTask := name\<rparr>))}"
  by (simp add: start_events_def)

text \<open>
  One iteration under resume leaves the record of a completed name alone: no assignment
  of the name to \<open>CurrentTask\<close>, and a call of the run operation only for a task of
  another name.
\<close>

lemma save_or_warn_Save:
  assumes "save_or_warn fmt js c pf dp env = (env', evs)" "Save p d e \<in> set evs"
  shows "p = pf \<and> d = dp \<and> ResumeEnabled c"
  using save_or_warn_events [OF assms] by auto

lemma save_or_warn_no_Invoke:
  assumes "save_or_warn fmt js c pf dp env = (env', evs)"
  shows "Invoke k r \<notin> set evs" "SetCurrentTask n \<notin> set evs"
  using save_or_warn_events [OF assms] by auto

lemma run_task_keeps_completed:
  assumes run: "run_task js c pf hc uc i t dp env = (res, dp', env', evs)"
    and resume: "ResumeEnabled c" and compl: "is_completed dp n"
  shows "map_lookup dp' n = map_lookup dp n \<and> SetCurrentTask n \<notin> set evs
       \<and> (\<forall>k r. Invoke k r \<in> set evs \<longrightarrow> task_Name t \<noteq> n)
       \<and> (\<forall>p d e. Save p d e \<in> set evs \<longrightarrow> map_lookup d n = map_lookup dp n)"
  using run
proof (cases rule: run_task_cases)
  case skip
  then show ?thesis by simp
next
  case nilmap
  with resume compl have "task_Name t \<noteq> n" by auto
  with nilmap show ?thesis
    by (auto simp: start_events_set map_lookup_def)
next
  case (fail m env2 evs2 w err)
  with resume compl have ne: "task_Name t \<noteq> n" by auto
  note sv = save_or_warn_Save [OF fail(3)] save_or_warn_no_Invoke [OF fail(3)]
  from fail ne show ?thesis
    by (auto simp: start_events_set map_lookup_start_progress sv dest!: sv(1))
next
  case (ok m env2 evs2 w evs5)
  with resume compl have ne: "task_Name t \<noteq> n" by auto
  note sv = save_or_warn_Save [OF ok(3)] save_or_warn_no_Invoke [OF ok(3)]
  note sv5 = save_or_warn_Save [OF ok(7)] save_or_warn_no_Invoke [OF ok(7)]
  from ok(1,2,4,5,6,8) ne show ?thesis
    by (auto simp: start_events_set map_lookup_start_progress map_lookup_finish_progress sv sv5
        dest!: sv(1) sv5(1))
qed

text \<open>An iteration that lets the loop go on leaves the record of its task completed.\<close>

lemma run_task_completes:
  assumes run: "run_task js c pf hc uc i t dp env = (Inr None, dp', env', evs)"
  shows "is_completed dp' (task_Name t)"
  using run
proof (cases rule: run_task_cases)
  case (ok m env2 evs2 w evs5)
  then show ?thesis by (simp add: is_completed_def map_lookup_finish_progress)
qed simp_all

text \<open>The calls of run operations in one iteration, and the counter of completed tasks.\<close>

lemma is_success_iff: "is_success e \<longleftrightarrow> (\<exists>i. e = Invoke i None)"
  by (cases e rule: is_success.cases) auto

lemma filter_is_success_empty:
  "(\<And>k. Invoke k None \<notin> set evs) \<Longrightarrow> filter is_success evs = []"
  by (auto simp: filter_empty_conv is_success_iff)

lemma run_task_Invoke:
  assumes run: "run_task js c pf hc uc i t dp env = (res, dp', env', evs)"
  shows "(\<forall>k r. Invoke k r \<in> set evs \<longrightarrow> k = i)
       \<and> CompletedTasks dp' =
           ((\<lambda>x. wrap64 (x + 1)) ^^ length (filter is_success evs)) (CompletedTasks dp)
       \<and> (res = Inr None \<longrightarrow> (\<forall>k r. Invoke k r \<in> set evs \<longrightarrow> r = None))
       \<and> (\<forall>err. Invoke i (Some err) \<in> set evs \<longrightarrow>
             res = Inr (Some (Annotatef err (''run task '' @ task_Name t)))
             \<and> (\<exists>pre. evs = pre @ [Invoke i (Some err)] \<and> (\<forall>k r. Invoke k r \<notin> set pre))
             \<and> CurrentTask dp' = task_Name t
             \<and> snd (map_lookup dp' (task_Name t))
             \<and> \<not> Completed (fst (map_lookup dp' (task_Name t))))"
  using run
proof (cases rule: run_task_cases)
  case skip
  then show ?thesis by simp
next
  case nilmap
  then show ?thesis by (simp add: start_events_def)
next
  case (fail m env2 evs2 w err)
  note sv = save_or_warn_no_Invoke [OF fail(3)]
  have f: "filter is_success evs2 = []"
    by (rule filter_is_success_empty) (simp add: sv)
  have pre: "\<forall>k r. Invoke k r \<notin> set (start_events c hc uc i (task_Name t) dp @ evs2)"
    by (simp add: start_events_def sv)
  have l: "map_lookup dp' (task_Name t) = (started (task_Name t) (clock env (ticks env)), True)"
    using map_lookup_start_progress [OF fail(2)] fail(6) by simp
  have ct: "CurrentTask dp' = task_Name t" "CompletedTasks dp' = CompletedTasks dp"
    by (simp_all add: fail(6) start_progress_def)
  from fail(5,8) f pre l ct show ?thesis
    by (auto simp: start_events_def sv started_def)
next
  case (ok m env2 evs2 w evs5)
  note sv = save_or_warn_no_Invoke [OF ok(3)]
  note sv5 = save_or_warn_no_Invoke [OF ok(7)]
  have f: "filter is_success evs2 = []" "filter is_success evs5 = []"
    by (rule filter_is_success_empty, simp add: sv)
      (rule filter_is_success_empty, simp add: sv5)
  have ct: "CompletedTasks dp' = wrap64 (CompletedTasks dp + 1)"
    by (simp add: ok(6) finish_progress_def)
  from ok(5,8) f ct show ?thesis
    by (auto simp: start_events_def sv sv5)
qed

text \<open>The count of completed records under an update of the map, and the invariant.\<close>

lemma completed_count_fmupd:
  assumes "\<not> (case fmlookup m k of None \<Rightarrow> False | Some info \<Rightarrow> Completed info)"
  shows "fcard (ffilter (\<lambda>key. case fmlookup (fmupd k v m) key of None \<Rightarrow> False | Some info \<Rightarrow> Completed info)
                  (fmdom (fmupd k v m))) =
         fcard (ffilter (\<lambda>key. case fmlookup m key of None \<Rightarrow> False | Some info \<Rightarrow> Completed info)
                  (fmdom m)) + (if Completed v then 1 else 0)"
proof -
  let ?P = "\<lambda>m key. case fmlookup m key of None \<Rightarrow> False | Some info \<Rightarrow> Completed info"
  let ?S = "ffilter (?P m) (fmdom m)"
  have notin: "k |\<notin>| ?S" using assms by simp
  have eq: "ffilter (?P (fmupd k v m)) (fmdom (fmupd k v m)) =
      (if Completed v then finsert k ?S else ?S)"
    using assms by (auto split: option.splits if_splits)
  show ?thesis
    unfolding eq using notin by (simp add: fcard_finsert_disjoint)
qed

lemma is_completed_alt:
  "TaskProgress dp = Some m \<Longrightarrow>
   is_completed dp key = (case fmlookup m key of None \<Rightarrow> False | Some info \<Rightarrow> Completed info)"
  by (simp add: is_completed_def map_lookup_def split: option.splits)

lemma completed_count_start_progress:
  assumes "TaskProgress dp = Some m" "\<not> is_completed dp name"
  shows "completed_count (start_progress name now m dp) = completed_count dp"
  using assms completed_count_fmupd [of m name "started name now"]
  by (simp add: completed_count_def start_progress_def is_completed_alt started_def)

lemma completed_count_finish_progress:
  assumes "TaskProgress dp = Some m" "\<not> is_completed dp name"
  shows "completed_count (finish_progress name now now' m dp) = Suc (completed_count dp)"
  using assms
    completed_count_fmupd [of m name "(started name now)\<lparr>Completed := True, TaskEndTime := now'\<rparr>"]
  by (simp add: completed_count_def finish_progress_def is_completed_alt)

lemma wrap64_id: "- (2 ^ 63) \<le> x \<Longrightarrow> x < 2 ^ 63 \<Longrightarrow> wrap64 x = x"
  by (simp add: wrap64_def)

lemma run_task_inv:
  assumes run: "run_task js c pf hc uc i t dp env = (res, dp', env', evs)"
    and resume: "ResumeEnabled c" and inv: "progress_inv dp"
    and bound: "int (completed_count dp) + 1 < 2 ^ 63"
  shows "(\<forall>p d e. Save p d e \<in> set evs \<longrightarrow> progress_inv d)
       \<and> (res = Inr None \<longrightarrow> progress_inv dp' \<and> completed_count dp' \<le> Suc (completed_count dp))"
  using run
proof (cases rule: run_task_cases)
  case skip
  with inv show ?thesis by simp
next
  case nilmap
  then show ?thesis by (simp add: start_events_def)
next
  case (fail m env2 evs2 w err)
  from fail(1) resume have nc: "\<not> is_completed dp (task_Name t)" by simp
  have "progress_inv (start_progress (task_Name t) (clock env (ticks env)) m dp)"
    using inv completed_count_start_progress [OF fail(2) nc]
    by (simp add: progress_inv_def) (simp add: start_progress_def)
  with fail(5,8) show ?thesis
    by (auto simp: start_events_def dest!: save_or_warn_Save [OF fail(3)])
next
  case (ok m env2 evs2 w evs5)
  from ok(1) resume have nc: "\<not> is_completed dp (task_Name t)" by simp
  have s: "progress_inv (start_progress (task_Name t) (clock env (ticks env)) m dp)"
    using inv completed_count_start_progress [OF ok(2) nc]
    by (simp add: progress_inv_def) (simp add: start_progress_def)
  have cc: "completed_count dp' = Suc (completed_count dp)"
    using completed_count_finish_progress [OF ok(2) nc] ok(6) by simp
  have "CompletedTasks dp' = wrap64 (CompletedTasks dp + 1)"
    using ok(6) by (simp add: finish_progress_def)
  also have "\<dots> = int (completed_count dp) + 1"
    using inv bound by (simp add: progress_inv_def wrap64_id)
  finally have f: "progress_inv dp'"
    using cc by (simp add: progress_inv_def)
  from ok(5,8) s f cc show ?thesis
    by (auto simp: start_events_def dest!: save_or_warn_Save [OF ok(3)] save_or_warn_Save [OF ok(7)])
qed

lemma run_task_no_resume_no_Save:
  assumes run: "run_task js c pf hc uc i t dp env = (res, dp', env', evs)"
    and "\<not> ResumeEnabled c"
  shows "Save p d e \<notin> set evs"
  using run
proof (cases rule: run_task_cases)
  case (fail m env2 evs2 w err)
  with assms(2) show ?thesis
    by (auto simp: start_events_def dest!: save_or_warn_Save [OF fail(3)])
next
  case (ok m env2 evs2 w evs5)
  with assms(2) show ?thesis
    by (auto simp: start_events_def dest!: save_or_warn_Save [OF ok(3)] save_or_warn_Save [OF ok(7)])
qed (simp_all add: assms(2) start_events_def)

lemma run_tasks_Cons_cases [consumes 1, case_names stop continue]:
  assumes "run_tasks js c pf hc uc i (t # rest) dp env = (res, dp', env', evs)"
  obtains
    (stop) "run_task js c pf hc uc i t dp env = (res, dp', env', evs)" "res \<noteq> Inr None"
  | (continue) dp1 env1 evs1 evs2 where
      "run_task js c pf hc uc i t dp env = (Inr None, dp1, env1, evs1)"
      "run_tasks js c pf hc uc (Suc i) rest dp1 env1 = (res, dp', env', evs2)"
      "evs = evs1 @ evs2"
proof -
  obtain r1 dp1 env1 evs1 where one: "run_task js c pf hc uc i t dp env = (r1, dp1, env1, evs1)"
    by (cases "run_task js c pf hc uc i t dp env") auto
  show thesis
  proof (cases "r1 = Inr None")
    case True
    obtain r2 dp2 env2 evs2 where
      more: "run_tasks js c pf hc uc (Suc i) rest dp1 env1 = (r2, dp2, env2, evs2)"
      by (cases "run_tasks js c pf hc uc (Suc i) rest dp1 env1") auto
    from assms one True more show thesis
      by (intro continue [of dp1 env1 evs1 evs2]) auto
  next
    case False
    with assms one show thesis
      by (intro stop) (auto split: sum.splits option.splits)
  qed
qed

lemmas run_task_keeps_lookup = run_task_keeps_completed [THEN conjunct1]
lemmas run_task_keeps_current = run_task_keeps_completed [THEN conjunct2, THEN conjunct1]
lemmas run_task_keeps_Invoke =
  run_task_keeps_completed [THEN conjunct2, THEN conjunct2, THEN conjunct1, rule_format]
lemmas run_task_keeps_Save =
  run_task_keeps_completed [THEN conjunct2, THEN conjunct2, THEN conjunct2, rule_format]

lemmas run_task_Invoke_index = run_task_Invoke [THEN conjunct1, rule_format]
lemmas run_task_CompletedTasks = run_task_Invoke [THEN conjunct2, THEN conjunct1]
lemmas run_task_Invoke_None =
  run_task_Invoke [THEN conjunct2, THEN conjunct2, THEN conjunct1, rule_format]
lemmas run_task_Invoke_failure =
  run_task_Invoke [THEN conjunct2, THEN conjunct2, THEN conjunct2, rule_format]

lemmas run_task_inv_Save = run_task_inv [THEN conjunct1, rule_format]
lemmas run_task_inv_next = run_task_inv [THEN conjunct2, rule_format]

subsection \<open>The loop\<close>

lemma nth_Cons_shift: "Suc i \<le> k \<Longrightarrow> (t # rest) ! (k - i) = rest ! (k - Suc i)"
  by (simp add: Suc_diff_le)

lemma run_tasks_keeps_completed:
  assumes "run_tasks js c pf hc uc i ts dp env = (res, dp', env', evs)"
    and "ResumeEnabled c" and "is_completed dp n"
  shows "map_lookup dp' n = map_lookup dp n \<and> SetCurrentTask n \<notin> set evs
       \<and> (\<forall>k r. Invoke k r \<in> set evs \<longrightarrow>
             i \<le> k \<and> k < i + length ts \<and> task_Name (ts ! (k - i)) \<noteq> n)
       \<and> (\<forall>p d e. Save p d e \<in> set evs \<longrightarrow> map_lookup d n = map_lookup dp n)"
  using assms
proof (induction ts arbitrary: i dp env res dp' env' evs)
  case Nil
  then show ?case by simp
next
  case (Cons t rest)
  from Cons.prems(1) show ?case
  proof (cases rule: run_tasks_Cons_cases)
    case stop
    show ?thesis
    proof (intro conjI allI impI)
      show "map_lookup dp' n = map_lookup dp n"
        by (rule run_task_keeps_lookup [OF stop(1) Cons.prems(2,3)])
      show "SetCurrentTask n \<notin> set evs"
        by (rule run_task_keeps_current [OF stop(1) Cons.prems(2,3)])
    next
      fix k r assume a: "Invoke k r \<in> set evs"
      have k: "k = i" by (rule run_task_Invoke_index [OF stop(1) a])
      have ne: "task_Name t \<noteq> n" by (rule run_task_keeps_Invoke [OF stop(1) Cons.prems(2,3) a])
      show "i \<le> k" "k < i + length (t # rest)" "task_Name ((t # rest) ! (k - i)) \<noteq> n"
        using k ne by simp_all
    next
      fix p d e assume "Save p d e \<in> set evs"
      then show "map_lookup d n = map_lookup dp n"
        by (rule run_task_keeps_Save [OF stop(1) Cons.prems(2,3)])
    qed
  next
    case (continue dp1 env1 evs1 evs2)
    have l1: "map_lookup dp1 n = map_lookup dp n"
      by (rule run_task_keeps_lookup [OF continue(1) Cons.prems(2,3)])
    then have c1: "is_completed dp1 n"
      using Cons.prems(3) by (simp add: is_completed_def)
    note rest = Cons.IH [OF continue(2) Cons.prems(2) c1]
    show ?thesis
    proof (intro conjI allI impI)
      show "map_lookup dp' n = map_lookup dp n"
        using l1 rest [THEN conjunct1] by simp
      show "SetCurrentTask n \<notin> set evs"
        using run_task_keeps_current [OF continue(1) Cons.prems(2,3)]
          rest [THEN conjunct2, THEN conjunct1] continue(3) by simp
    next
      fix k r assume "Invoke k r \<in> set evs"
      then consider (1) "Invoke k r \<in> set evs1" | (2) "Invoke k r \<in> set evs2"
        using continue(3) by auto
      then have "i \<le> k \<and> k < i + length (t # rest) \<and> task_Name ((t # rest) ! (k - i)) \<noteq> n"
      proof cases
        case 1
        have k: "k = i" by (rule run_task_Invoke_index [OF continue(1) 1])
        have ne: "task_Name t \<noteq> n"
          by (rule run_task_keeps_Invoke [OF continue(1) Cons.prems(2,3) 1])
        from k ne show ?thesis by simp
      next
        case 2
        from rest [THEN conjunct2, THEN conjunct2, THEN conjunct1, rule_format, OF 2]
        have "Suc i \<le> k \<and> k < Suc i + length rest \<and> task_Name (rest ! (k - Suc i)) \<noteq> n" .
        then show ?thesis
          using nth_Cons_shift [of i k t rest] by simp
      qed
      then show "i \<le> k" "k < i + length (t # rest)" "task_Name ((t # rest) ! (k - i)) \<noteq> n"
        by simp_all
    next
      fix p d e assume "Save p d e \<in> set evs"
      then consider (1) "Save p d e \<in> set evs1" | (2) "Save p d e \<in> set evs2"
        using continue(3) by auto
      then show "map_lookup d n = map_lookup dp n"
      proof cases
        case 1
        then show ?thesis by (rule run_task_keeps_Save [OF continue(1) Cons.prems(2,3)])
      next
        case 2
        from rest [THEN conjunct2, THEN conjunct2, THEN conjunct2, rule_format, OF 2] l1
        show ?thesis by simp
      qed
    qed
  qed
qed

lemmas run_tasks_keeps_lookup = run_tasks_keeps_completed [THEN conjunct1]
lemmas run_tasks_keeps_current = run_tasks_keeps_completed [THEN conjunct2, THEN conjunct1]
lemmas run_tasks_keeps_Invoke =
  run_tasks_keeps_completed [THEN conjunct2, THEN conjunct2, THEN conjunct1, rule_format]
lemmas run_tasks_keeps_Save =
  run_tasks_keeps_completed [THEN conjunct2, THEN conjunct2, THEN conjunct2, rule_format]

lemma run_tasks_CompletedTasks:
  assumes "run_tasks js c pf hc uc i ts dp env = (res, dp', env', evs)"
  shows "CompletedTasks dp' =
           ((\<lambda>x. wrap64 (x + 1)) ^^ length (filter is_success evs)) (CompletedTasks dp)"
  using assms
proof (induction ts arbitrary: i dp env res dp' env' evs)
  case Nil
  then show ?case by simp
next
  case (Cons t rest)
  from Cons.prems(1) show ?case
  proof (cases rule: run_tasks_Cons_cases)
    case stop
    from run_task_CompletedTasks [OF stop(1)] show ?thesis .
  next
    case (continue dp1 env1 evs1 evs2)
    have len: "length (filter is_success evs) =
        length (filter is_success evs2) + length (filter is_success evs1)"
      using continue(3) by simp
    from run_task_CompletedTasks [OF continue(1)] Cons.IH [OF continue(2)]
    show ?thesis unfolding len funpow_add by simp
  qed
qed

lemma run_tasks_Invoke_range:
  assumes "run_tasks js c pf hc uc i ts dp env = (res, dp', env', evs)"
    and "Invoke k r \<in> set evs"
  shows "i \<le> k \<and> k < i + length ts"
  using assms
proof (induction ts arbitrary: i dp env res dp' env' evs)
  case Nil
  then show ?case by simp
next
  case (Cons t rest)
  from Cons.prems(1) show ?case
  proof (cases rule: run_tasks_Cons_cases)
    case stop
    from run_task_Invoke_index [OF stop(1) Cons.prems(2)] show ?thesis by simp
  next
    case (continue dp1 env1 evs1 evs2)
    from Cons.prems(2) continue(3)
    consider (1) "Invoke k r \<in> set evs1" | (2) "Invoke k r \<in> set evs2"
      by auto
    then show ?thesis
    proof cases
      case 1
      from run_task_Invoke_index [OF continue(1) 1] show ?thesis by simp
    next
      case 2
      from Cons.IH [OF continue(2) 2] show ?thesis by simp
    qed
  qed
qed

lemma run_tasks_failure:
  assumes "run_tasks js c pf hc uc i ts dp env = (res, dp', env', evs)"
    and "Invoke k (Some err) \<in> set evs"
  shows "res = Inr (Some (Annotatef err (''run task '' @ task_Name (ts ! (k - i)))))
       \<and> (\<exists>pre. evs = pre @ [Invoke k (Some err)]
              \<and> (\<forall>j r. Invoke j r \<in> set pre \<longrightarrow> j < k \<and> r = None))
       \<and> CurrentTask dp' = task_Name (ts ! (k - i))
       \<and> snd (map_lookup dp' (task_Name (ts ! (k - i))))
       \<and> \<not> Completed (fst (map_lookup dp' (task_Name (ts ! (k - i)))))"
  using assms
proof (induction ts arbitrary: i dp env res dp' env' evs)
  case Nil
  then show ?case by simp
next
  case (Cons t rest)
  from Cons.prems(1) show ?case
  proof (cases rule: run_tasks_Cons_cases)
    case stop
    have k: "k = i" by (rule run_task_Invoke_index [OF stop(1) Cons.prems(2)])
    from run_task_Invoke_failure [OF stop(1) Cons.prems(2) [unfolded k]]
    obtain pre where f: "res = Inr (Some (Annotatef err (''run task '' @ task_Name t)))"
      "evs = pre @ [Invoke i (Some err)]" "\<forall>k r. Invoke k r \<notin> set pre"
      "CurrentTask dp' = task_Name t" "snd (map_lookup dp' (task_Name t))"
      "\<not> Completed (fst (map_lookup dp' (task_Name t)))"
      by blast
    from f(2,3) have "\<exists>pre. evs = pre @ [Invoke k (Some err)]
              \<and> (\<forall>j r. Invoke j r \<in> set pre \<longrightarrow> j < k \<and> r = None)"
      unfolding k by blast
    with f(1,4,5,6) show ?thesis unfolding k by simp
  next
    case (continue dp1 env1 evs1 evs2)
    have none: "\<And>j r. Invoke j r \<in> set evs1 \<Longrightarrow> j = i \<and> r = None"
      using run_task_Invoke_index [OF continue(1)] run_task_Invoke_None [OF continue(1)]
      by simp
    with Cons.prems(2) continue(3) have in2: "Invoke k (Some err) \<in> set evs2" by auto
    from run_tasks_Invoke_range [OF continue(2) in2] have range: "Suc i \<le> k" by simp
    then have nth: "(t # rest) ! (k - i) = rest ! (k - Suc i)"
      by (rule nth_Cons_shift)
    from Cons.IH [OF continue(2) in2] obtain pre where
      ih: "res = Inr (Some (Annotatef err (''run task '' @ task_Name (rest ! (k - Suc i)))))"
        "evs2 = pre @ [Invoke k (Some err)]"
        "\<forall>j r. Invoke j r \<in> set pre \<longrightarrow> j < k \<and> r = None"
        "CurrentTask dp' = task_Name (rest ! (k - Suc i))"
        "snd (map_lookup dp' (task_Name (rest ! (k - Suc i))))"
        "\<not> Completed (fst (map_lookup dp' (task_Name (rest ! (k - Suc i)))))"
      by blast
    have "evs = (evs1 @ pre) @ [Invoke k (Some err)]"
      using continue(3) ih(2) by simp
    moreover have "\<forall>j r. Invoke j r \<in> set (evs1 @ pre) \<longrightarrow> j < k \<and> r = None"
      using none ih(3) range by auto
    ultimately have "\<exists>pre. evs = pre @ [Invoke k (Some err)]
              \<and> (\<forall>j r. Invoke j r \<in> set pre \<longrightarrow> j < k \<and> r = None)"
      by blast
    with ih(1,4,5,6) show ?thesis
      unfolding nth by simp
  qed
qed

lemma run_tasks_inv:
  assumes "run_tasks js c pf hc uc i ts dp env = (res, dp', env', evs)"
    and "ResumeEnabled c" and "progress_inv dp"
    and "int (completed_count dp) + int (length ts) < 2 ^ 63"
  shows "(\<forall>p d e. Save p d e \<in> set evs \<longrightarrow> progress_inv d)
       \<and> (res = Inr None \<longrightarrow> progress_inv dp')"
  using assms
proof (induction ts arbitrary: i dp env res dp' env' evs)
  case Nil
  then show ?case by simp
next
  case (Cons t rest)
  from Cons.prems(4) have b1: "int (completed_count dp) + 1 < 2 ^ 63" by simp
  from Cons.prems(1) show ?case
  proof (cases rule: run_tasks_Cons_cases)
    case stop
    show ?thesis
    proof (intro conjI allI impI)
      fix p d e assume "Save p d e \<in> set evs"
      then show "progress_inv d"
        by (rule run_task_inv_Save [OF stop(1) Cons.prems(2,3) b1])
    next
      assume "res = Inr None"
      with stop(2) show "progress_inv dp'" by simp
    qed
  next
    case (continue dp1 env1 evs1 evs2)
    from run_task_inv_next [OF continue(1) Cons.prems(2,3) b1]
    have one: "progress_inv dp1" "completed_count dp1 \<le> Suc (completed_count dp)"
      by simp_all
    from one(2) Cons.prems(4) have b2: "int (completed_count dp1) + int (length rest) < 2 ^ 63"
      by simp
    note rest = Cons.IH [OF continue(2) Cons.prems(2) one(1) b2]
    show ?thesis
    proof (intro conjI allI impI)
      fix p d e assume "Save p d e \<in> set evs"
      then consider (1) "Save p d e \<in> set evs1" | (2) "Save p d e \<in> set evs2"
        using continue(3) by auto
      then show "progress_inv d"
      proof cases
        case 1
        then show ?thesis by (rule run_task_inv_Save [OF continue(1) Cons.prems(2,3) b1])
      next
        case 2
        then show ?thesis by (rule rest [THEN conjunct1, rule_format])
      qed
    next
      assume "res = Inr None"
      then show "progress_inv dp'" by (rule rest [THEN conjunct2, rule_format])
    qed
  qed
qed

lemma run_tasks_no_resume_no_Save:
  assumes "run_tasks js c pf hc uc i ts dp env = (res, dp', env', evs)"
    and "\<not> ResumeEnabled c"
  shows "Save p d e \<notin> set evs"
  using assms
proof (induction ts arbitrary: i dp env res dp' env' evs)
  case Nil
  then show ?case by simp
next
  case (Cons t rest)
  from Cons.prems(1) show ?case
  proof (cases rule: run_tasks_Cons_cases)
    case stop
    from run_task_no_resume_no_Save [OF stop(1) Cons.prems(2)] show ?thesis .
  next
    case (continue dp1 env1 evs1 evs2)
    from run_task_no_resume_no_Save [OF continue(1) Cons.prems(2)]
      Cons.IH [OF continue(2) Cons.prems(2)] continue(3)
    show ?thesis by simp
  qed
qed

text \<open>Under resume, a task with an earlier task of the same name is never run.\<close>

lemma run_tasks_same_name:
  assumes "run_tasks js c pf hc uc i ts dp env = (res, dp', env', evs)"
    and "ResumeEnabled c" and "a < b" and "b < length ts"
    and "task_Name (ts ! a) = task_Name (ts ! b)"
  shows "Invoke (i + b) r \<notin> set evs"
  using assms
proof (induction ts arbitrary: i dp env res dp' env' evs a b)
  case Nil
  then show ?case by simp
next
  case (Cons t rest)
  from Cons.prems(3) obtain b' where b: "b = Suc b'" by (cases b) auto
  have h1: "\<And>es d1 e1 r1. run_task js c pf hc uc i t dp env = (r1, d1, e1, es)
      \<Longrightarrow> Invoke (i + b) r \<notin> set es"
    using run_task_Invoke_index b by fastforce
  from Cons.prems(1) show ?case
  proof (cases rule: run_tasks_Cons_cases)
    case stop
    from h1 [OF stop(1)] show ?thesis .
  next
    case (continue dp1 env1 evs1 evs2)
    have h2: "Invoke (i + b) r \<notin> set evs2"
    proof (cases a)
      case 0
      with Cons.prems(5) b have same: "task_Name (rest ! b') = task_Name t" by simp
      from run_task_completes [OF continue(1)] have c1: "is_completed dp1 (task_Name t)" .
      show ?thesis
      proof
        assume "Invoke (i + b) r \<in> set evs2"
        from run_tasks_keeps_Invoke [OF continue(2) Cons.prems(2) c1 this]
        have "task_Name (rest ! (i + b - Suc i)) \<noteq> task_Name t" by simp
        with same b show False by simp
      qed
    next
      case (Suc a')
      with Cons.prems(3,4,5) b have "a' < b'" "b' < length rest"
        "task_Name (rest ! a') = task_Name (rest ! b')" by simp_all
      from Cons.IH [OF continue(2) Cons.prems(2) this] b show ?thesis by simp
    qed
    from h1 [OF continue(1)] h2 continue(3) show ?thesis by simp
  qed
qed

subsection \<open>The whole run\<close>

lemma Run_cases [consumes 2, case_names stopped finished]:
  assumes run: "Run js r env = (res, r', env', evs)" and p: "Progress r = Some dp0"
  obtains
    (stopped) hc uc dp' where
      "run_tasks js (cfg r) (progressFile r) hc uc 0 (tasks r) dp0 env = (res, dp', env', evs)"
      "res \<noteq> Inr None" "r' = r\<lparr>Progress := Some dp'\<rparr>"
  | (finished) hc uc dp' env1 evs0 evsd evs2 where
      "run_tasks js (cfg r) (progressFile r) hc uc 0 (tasks r) dp0 env = (Inr None, dp', env1, evs0)"
      "res = Inr None"
      "r' = r\<lparr>Progress := Some (dp'\<lparr>EndTime := clock env1 (ticks env1)\<rparr>)\<rparr>"
      "save_or_warn ''Failed to save final progress: %v'' js (cfg r) (progressFile r)
         (dp'\<lparr>EndTime := clock env1 (ticks env1)\<rparr>) (env1\<lparr>ticks := Suc (ticks env1)\<rparr>) = (env', evs2)"
      "evs = evs0 @ evsd @ evs2"
      "\<And>ev. ev \<in> set evsd \<Longrightarrow> \<exists>m. ev = Log Info m"
proof -
  define hc where "hc = (if TaskInfoColor (cfg r) \<noteq> [] then getColorAttribute (TaskInfoColor (cfg r)) else 0)"
  define uc where "uc = (TaskInfoColor (cfg r) \<noteq> [] \<and> 0 \<le> hc)"
  obtain lres dp' env1 evs0 where
    loop: "run_tasks js (cfg r) (progressFile r) hc uc 0 (tasks r) dp0 env = (lres, dp', env1, evs0)"
    by (cases "run_tasks js (cfg r) (progressFile r) hc uc 0 (tasks r) dp0 env") auto
  show thesis
  proof (cases "lres = Inr None")
    case False
    with run p loop have "res = lres" "r' = r\<lparr>Progress := Some dp'\<rparr>" "env' = env1" "evs = evs0"
      by (auto simp: Run_def Let_def hc_def [symmetric] uc_def [symmetric]
          split: sum.splits option.splits)
    with loop False show thesis by (intro stopped [of hc uc dp']) auto
  next
    case True
    define dp1 where "dp1 = dp'\<lparr>EndTime := clock env1 (ticks env1)\<rparr>"
    define evsd where "evsd = (if ShowProgress (cfg r)
                               then map (Log Info) (DisplayDeploymentComplete dp1 hc)
                               else [])"
    obtain env2 evs2 where sv: "save_or_warn ''Failed to save final progress: %v'' js (cfg r)
        (progressFile r) dp1 (env1\<lparr>ticks := Suc (ticks env1)\<rparr>) = (env2, evs2)"
      by (cases "save_or_warn ''Failed to save final progress: %v'' js (cfg r)
        (progressFile r) dp1 (env1\<lparr>ticks := Suc (ticks env1)\<rparr>)") auto
    from run p loop True sv
    have "res = Inr None" "r' = r\<lparr>Progress := Some dp1\<rparr>" "env' = env2"
      "evs = evs0 @ evsd @ evs2"
      by (auto simp: Run_def Let_def hc_def [symmetric] uc_def [symmetric] time_Now_def
          dp1_def [symmetric] evsd_def)
    moreover have "\<And>ev. ev \<in> set evsd \<Longrightarrow> \<exists>m. ev = Log Info m"
      by (auto simp: evsd_def split: if_splits)
    ultimately show thesis
      using loop True sv
      by (intro finished [of hc uc dp' env1 evs0 evs2 evsd]) (auto simp: dp1_def)
  qed
qed

lemmas demo_defs = demo_runner_def demo_cfg_def demo_env_def demo_fs_def demo_json_def
  demo_ok_def demo_fail_def demo_done_def demo_progress_def

lemmas Run_eval = Run_def run_task_def save_or_warn_def saveProgress_def SaveProgressToFile_def
  os_WriteFile_def map_lookup_def map_assign_def time_Now_def Let_def started_def
  wrap64_def

lemma map_lookup_EndTime [simp]: "map_lookup (dp\<lparr>EndTime := x\<rparr>) n = map_lookup dp n"
  by (simp add: map_lookup_def)

lemma completed_count_EndTime [simp]: "completed_count (dp\<lparr>EndTime := x\<rparr>) = completed_count dp"
  by (simp add: completed_count_def)

lemma is_completed_EndTime [simp]: "is_completed (dp\<lparr>EndTime := x\<rparr>) n = is_completed dp n"
  by (simp add: is_completed_def)

lemma run_tasks_skip_head:
  assumes "ResumeEnabled c" "is_completed dp (task_Name t)"
  shows "run_tasks js c pf hc uc i (t # rest) dp env =
           (case run_tasks js c pf hc uc (Suc i) rest dp env of
              (res, dp', env', evs) \<Rightarrow>
                (res, dp', env',
                 Log Info (Sprintf ''Skipping completed task %s (%d/%d)''
                   [StrArg (task_Name t), IntArg (int i + 1), IntArg (TotalTasks dp)]) # evs))"
  using assms by (simp add: run_task_skip split: prod.splits)

text \<open>
  Claim C1. With resume enabled, let the progress that \<open>Run\<close> starts from hold a
  record under the name \<open>n\<close> whose \<open>Completed\<close> field is true. Then \<open>Run\<close> never
  calls the run operation of a task named \<open>n\<close>, never assigns \<open>n\<close> to
  \<open>CurrentTask\<close>, and leaves the record as it is, in every progress it saves and in the
  one it ends with. When the loop reaches a task whose record is completed, it logs the
  skip and goes on with the next task, in the same progress and environment.
\<close>

theorem Run_skips_completed:
  assumes run: "Run js r env = (res, r', env', evs)"
    and resume: "ResumeEnabled (cfg r)"
    and p: "Progress r = Some dp0"
    and compl: "is_completed dp0 n"
  shows "(\<forall>k res'. Invoke k res' \<in> set evs \<longrightarrow>
            k < length (tasks r) \<and> task_Name (tasks r ! k) \<noteq> n)
       \<and> SetCurrentTask n \<notin> set evs
       \<and> (\<forall>p d e. Save p d e \<in> set evs \<longrightarrow> map_lookup d n = map_lookup dp0 n)
       \<and> (\<exists>dp'. Progress r' = Some dp' \<and> map_lookup dp' n = map_lookup dp0 n)
       \<and> (\<forall>hc uc i t rest dp (e :: 'w env). is_completed dp (task_Name t) \<longrightarrow>
             run_tasks js (cfg r) (progressFile r) hc uc i (t # rest) dp e =
               (case run_tasks js (cfg r) (progressFile r) hc uc (Suc i) rest dp e of
                  (res1, dp1, e1, evs1) \<Rightarrow>
                    (res1, dp1, e1,
                     Log Info (Sprintf ''Skipping completed task %s (%d/%d)''
                       [StrArg (task_Name t), IntArg (int i + 1), IntArg (TotalTasks dp)]) # evs1)))"
proof -
  have loop: "\<forall>hc uc i t rest dp (e :: 'w env). is_completed dp (task_Name t) \<longrightarrow>
             run_tasks js (cfg r) (progressFile r) hc uc i (t # rest) dp e =
               (case run_tasks js (cfg r) (progressFile r) hc uc (Suc i) rest dp e of
                  (res1, dp1, e1, evs1) \<Rightarrow>
                    (res1, dp1, e1,
                     Log Info (Sprintf ''Skipping completed task %s (%d/%d)''
                       [StrArg (task_Name t), IntArg (int i + 1), IntArg (TotalTasks dp)]) # evs1))"
    using run_tasks_skip_head [OF resume] by blast
  from run p have main: "(\<forall>k res'. Invoke k res' \<in> set evs \<longrightarrow>
            k < length (tasks r) \<and> task_Name (tasks r ! k) \<noteq> n)
       \<and> SetCurrentTask n \<notin> set evs
       \<and> (\<forall>p d e. Save p d e \<in> set evs \<longrightarrow> map_lookup d n = map_lookup dp0 n)
       \<and> (\<exists>dp'. Progress r' = Some dp' \<and> map_lookup dp' n = map_lookup dp0 n)"
  proof (cases rule: Run_cases)
    case (stopped hc uc dp')
    note k = run_tasks_keeps_completed [OF stopped(1) resume compl]
    show ?thesis
    proof (intro conjI allI impI)
      fix k res' assume a: "Invoke k res' \<in> set evs"
      from run_tasks_keeps_Invoke [OF stopped(1) resume compl a]
      show "k < length (tasks r)" "task_Name (tasks r ! k) \<noteq> n" by simp_all
    next
      show "SetCurrentTask n \<notin> set evs"
        by (rule run_tasks_keeps_current [OF stopped(1) resume compl])
    next
      fix p d e assume "Save p d e \<in> set evs"
      then show "map_lookup d n = map_lookup dp0 n"
        by (rule run_tasks_keeps_Save [OF stopped(1) resume compl])
    next
      show "\<exists>dp'. Progress r' = Some dp' \<and> map_lookup dp' n = map_lookup dp0 n"
        using stopped(3) run_tasks_keeps_lookup [OF stopped(1) resume compl] by simp
    qed
  next
    case (finished hc uc dp' env1 evs0 evsd evs2)
    have l: "map_lookup dp' n = map_lookup dp0 n"
      by (rule run_tasks_keeps_lookup [OF finished(1) resume compl])
    show ?thesis
    proof (intro conjI allI impI)
      fix k res' assume a: "Invoke k res' \<in> set evs"
      have "Invoke k res' \<notin> set evsd" using finished(6) by auto
      moreover have "Invoke k res' \<notin> set evs2"
        by (rule save_or_warn_no_Invoke [OF finished(4)])
      ultimately have "Invoke k res' \<in> set evs0" using a finished(5) by simp
      from run_tasks_keeps_Invoke [OF finished(1) resume compl this]
      show "k < length (tasks r)" "task_Name (tasks r ! k) \<noteq> n" by simp_all
    next
      have "SetCurrentTask n \<notin> set evsd" using finished(6) by auto
      moreover have "SetCurrentTask n \<notin> set evs2"
        by (rule save_or_warn_no_Invoke [OF finished(4)])
      ultimately show "SetCurrentTask n \<notin> set evs"
        using run_tasks_keeps_current [OF finished(1) resume compl] finished(5) by simp
    next
      fix p d e assume a: "Save p d e \<in> set evs"
      have "Save p d e \<notin> set evsd" using finished(6) by auto
      with a finished(5) consider (1) "Save p d e \<in> set evs0" | (2) "Save p d e \<in> set evs2"
        by auto
      then show "map_lookup d n = map_lookup dp0 n"
      proof cases
        case 1
        then show ?thesis by (rule run_tasks_keeps_Save [OF finished(1) resume compl])
      next
        case 2
        from save_or_warn_Save [OF finished(4) 2] l show ?thesis by simp
      qed
    next
      show "\<exists>dp'. Progress r' = Some dp' \<and> map_lookup dp' n = map_lookup dp0 n"
        using finished(3) l by simp
    qed
  qed
  from main loop show ?thesis by (intro conjI) (elim conjE, assumption)+
qed

lemma demo_done_completed: "is_completed demo_done ''A''"
  by (simp add: is_completed_def map_lookup_def demo_done_def started_def)

theorem Run_skips_completed_witness:
  "ResumeEnabled (cfg (demo_runner True [demo_ok ''A'', demo_ok ''B''] (Some demo_done)))
   \<and> Progress (demo_runner True [demo_ok ''A'', demo_ok ''B''] (Some demo_done)) = Some demo_done
   \<and> is_completed demo_done ''A''
   \<and> SetCurrentTask ''A'' \<notin>
       set (snd (snd (snd (Run demo_json
         (demo_runner True [demo_ok ''A'', demo_ok ''B''] (Some demo_done)) demo_env))))
   \<and> filter (\<lambda>e. case e of Invoke k x \<Rightarrow> True | _ \<Rightarrow> False)
        (snd (snd (snd (Run demo_json
           (demo_runner True [demo_ok ''A'', demo_ok ''B''] (Some demo_done)) demo_env)))) =
       [Invoke 1 None]"
proof -
  let ?r = "demo_runner True [demo_ok ''A'', demo_ok ''B''] (Some demo_done)"
  obtain res r' env' evs where run: "Run demo_json ?r demo_env = (res, r', env', evs)"
    by (cases "Run demo_json ?r demo_env") auto
  have resume: "ResumeEnabled (cfg ?r)" and p: "Progress ?r = Some demo_done"
    by (simp_all add: demo_runner_def demo_cfg_def)
  have inv: "filter (\<lambda>e. case e of Invoke k x \<Rightarrow> True | _ \<Rightarrow> False)
        (snd (snd (snd (Run demo_json ?r demo_env)))) = [Invoke 1 None]"
    by (simp add: demo_defs Run_eval)
  have "SetCurrentTask ''A'' \<notin> set evs"
    by (rule Run_skips_completed [OF run resume p demo_done_completed,
          THEN conjunct2, THEN conjunct1])
  then have "SetCurrentTask ''A'' \<notin> set (snd (snd (snd (Run demo_json ?r demo_env))))"
    using run by simp
  with resume p demo_done_completed inv show ?thesis by simp
qed

text \<open>
  The counter and the count agree on a new progress, where both are zero.
\<close>

lemma NewDeploymentProgress_inv: "progress_inv (fst (NewDeploymentProgress env))"
  by (simp add: NewDeploymentProgress_def time_Now_def progress_inv_def completed_count_def
      fcard_fempty split: prod.splits)

text \<open>
  Claim C2. Let \<open>Run\<close> start from a progress in which \<open>CompletedTasks\<close> equals the
  number of completed records (as in a new progress, and in every progress that a run has
  saved), the tasks being few enough for the counter not to overflow. Then the same holds
  for the progress of every attempt of \<open>Run\<close> to write the progress file.
\<close>

theorem Run_saves_keep_count:
  assumes run: "Run js r env = (res, r', env', evs)"
    and p: "Progress r = Some dp0"
    and inv: "CompletedTasks dp0 = int (completed_count dp0)"
    and bound: "int (completed_count dp0) + int (length (tasks r)) < 2 ^ 63"
  shows "\<forall>p d e. Save p d e \<in> set evs \<longrightarrow> CompletedTasks d = int (completed_count d)"
proof (intro allI impI)
  fix p d e assume a: "Save p d e \<in> set evs"
  from inv have inv': "progress_inv dp0" by (simp add: progress_inv_def)
  have "progress_inv d"
  proof (cases "ResumeEnabled (cfg r)")
    case True
    from run p show ?thesis
    proof (cases rule: Run_cases)
      case (stopped hc uc dp')
      from run_tasks_inv [OF stopped(1) True inv' bound] a show ?thesis by blast
    next
      case (finished hc uc dp' env1 evs0 evsd evs2)
      note li = run_tasks_inv [OF finished(1) True inv' bound]
      have "Save p d e \<notin> set evsd" using finished(6) by auto
      with a finished(5) consider (1) "Save p d e \<in> set evs0" | (2) "Save p d e \<in> set evs2"
        by auto
      then show ?thesis
      proof cases
        case 1
        with li show ?thesis by blast
      next
        case 2
        from li have "progress_inv dp'" by simp
        with save_or_warn_Save [OF finished(4) 2] show ?thesis
          by (simp add: progress_inv_def)
      qed
    qed
  next
    case False
    from run p show ?thesis
    proof (cases rule: Run_cases)
      case (stopped hc uc dp')
      from run_tasks_no_resume_no_Save [OF stopped(1) False] a show ?thesis by blast
    next
      case (finished hc uc dp' env1 evs0 evsd evs2)
      have "Save p d e \<notin> set evsd" using finished(6) by auto
      moreover have "Save p d e \<notin> set evs0"
        by (rule run_tasks_no_resume_no_Save [OF finished(1) False])
      moreover have "Save p d e \<notin> set evs2"
        using save_or_warn_Save [OF finished(4)] False by blast
      ultimately show ?thesis using a finished(5) by simp
    qed
  qed
  then show "CompletedTasks d = int (completed_count d)" by (simp add: progress_inv_def)
qed

lemma demo_done_count: "completed_count demo_done = 1"
  using completed_count_fmupd [of fmempty "''A''" "(started ''A'' 2)\<lparr>Completed := True, TaskEndTime := 3\<rparr>"]
  by (simp add: completed_count_def demo_done_def)

theorem Run_saves_keep_count_witness:
  "Progress (demo_runner True [demo_ok ''A'', demo_ok ''B''] (Some demo_done)) = Some demo_done
   \<and> CompletedTasks demo_done = int (completed_count demo_done)
   \<and> int (completed_count demo_done)
       + int (length (tasks (demo_runner True [demo_ok ''A'', demo_ok ''B''] (Some demo_done))))
       < 2 ^ 63
   \<and> (case last (snd (snd (snd (Run demo_json
          (demo_runner True [demo_ok ''A'', demo_ok ''B''] (Some demo_done)) demo_env)))) of
         Save p d e \<Rightarrow> CompletedTasks d = 2 \<and> completed_count d = 2
       | _ \<Rightarrow> False)"
proof -
  let ?r = "demo_runner True [demo_ok ''A'', demo_ok ''B''] (Some demo_done)"
  obtain res r' env' evs where run: "Run demo_json ?r demo_env = (res, r', env', evs)"
    by (cases "Run demo_json ?r demo_env") auto
  have p: "Progress ?r = Some demo_done"
    by (simp add: demo_runner_def)
  have inv: "CompletedTasks demo_done = int (completed_count demo_done)"
    by (simp add: demo_done_count) (simp add: demo_done_def)
  have bound: "int (completed_count demo_done) + int (length (tasks ?r)) < 2 ^ 63"
    by (simp add: demo_done_count demo_runner_def)
  obtain p' d e where l: "last (snd (snd (snd (Run demo_json ?r demo_env)))) = Save p' d e"
    and ct: "CompletedTasks d = 2"
    by (simp add: demo_defs Run_eval)
  have "snd (snd (snd (Run demo_json ?r demo_env))) \<noteq> []"
    by (simp add: demo_defs Run_eval)
  with l have "Save p' d e \<in> set (snd (snd (snd (Run demo_json ?r demo_env))))"
    by (metis last_in_set)
  then have "Save p' d e \<in> set evs" using run by simp
  with Run_saves_keep_count [OF run p inv bound] have "CompletedTasks d = int (completed_count d)"
    by blast
  with ct have "completed_count d = 2" by simp
  with p inv bound l ct show ?thesis by simp
qed

text \<open>
  Claim C4. When the run operation of the task at index \<open>k\<close> fails with \<open>err\<close>,
  \<open>Run\<close> returns the error \<open>err\<close> annotated with \<open>run task\<close> and the name of
  the task. That call is the last event of the run: no later task is started, and the
  calls before it were of tasks at smaller indices and succeeded. In the progress left
  behind, \<open>CurrentTask\<close> is the name of the task, its record exists and is not
  completed, and \<open>CompletedTasks\<close> has been incremented once for each successful
  call, so not for the failed one.
\<close>

theorem Run_task_failure:
  assumes run: "Run js r env = (res, r', env', evs)"
    and failed: "Invoke k (Some err) \<in> set evs"
  shows "k < length (tasks r)
       \<and> res = Inr (Some (Annotatef err (''run task '' @ task_Name (tasks r ! k))))
       \<and> (\<exists>pre. evs = pre @ [Invoke k (Some err)]
              \<and> (\<forall>j res'. Invoke j res' \<in> set pre \<longrightarrow> j < k \<and> res' = None))
       \<and> (\<exists>dp0 dp'. Progress r = Some dp0 \<and> Progress r' = Some dp'
              \<and> CurrentTask dp' = task_Name (tasks r ! k)
              \<and> snd (map_lookup dp' (task_Name (tasks r ! k)))
              \<and> \<not> Completed (fst (map_lookup dp' (task_Name (tasks r ! k))))
              \<and> CompletedTasks dp' =
                  ((\<lambda>x. wrap64 (x + 1)) ^^ length (filter is_success evs)) (CompletedTasks dp0))"
proof (cases "Progress r")
  case None
  with run have "evs = []" by (simp add: Run_def Let_def)
  with failed show ?thesis by simp
next
  case (Some dp0)
  with run show ?thesis
  proof (cases rule: Run_cases)
    case (stopped hc uc dp')
    from run_tasks_Invoke_range [OF stopped(1) failed] have k: "k < length (tasks r)" by simp
    from run_tasks_failure [OF stopped(1) failed] run_tasks_CompletedTasks [OF stopped(1)]
      stopped(3) k Some
    show ?thesis by simp
  next
    case (finished hc uc dp' env1 evs0 evsd evs2)
    have "Invoke k (Some err) \<notin> set evsd" using finished(6) by auto
    moreover have "Invoke k (Some err) \<notin> set evs2"
      by (rule save_or_warn_no_Invoke [OF finished(4)])
    ultimately have "Invoke k (Some err) \<in> set evs0" using failed finished(5) by simp
    from run_tasks_failure [OF finished(1) this] have False by simp
    then show ?thesis ..
  qed
qed

theorem Run_task_failure_witness:
  "Invoke 1 (Some (Err ''disk full'')) \<in>
       set (snd (snd (snd (Run demo_json
         (demo_runner True [demo_ok ''A'', demo_fail ''B'', demo_ok ''C''] (Some demo_done))
         demo_env))))
   \<and> fst (Run demo_json
         (demo_runner True [demo_ok ''A'', demo_fail ''B'', demo_ok ''C''] (Some demo_done))
         demo_env) =
       Inr (Some (Annotatef (Err ''disk full'') ''run task B''))
   \<and> last (snd (snd (snd (Run demo_json
         (demo_runner True [demo_ok ''A'', demo_fail ''B'', demo_ok ''C''] (Some demo_done))
         demo_env)))) = Invoke 1 (Some (Err ''disk full''))"
proof -
  let ?r = "demo_runner True [demo_ok ''A'', demo_fail ''B'', demo_ok ''C''] (Some demo_done)"
  obtain res r' env' evs where run: "Run demo_json ?r demo_env = (res, r', env', evs)"
    by (cases "Run demo_json ?r demo_env") auto
  have "Invoke 1 (Some (Err ''disk full'')) \<in> set (snd (snd (snd (Run demo_json ?r demo_env))))"
    by (simp add: demo_defs Run_eval)
  then have failed: "Invoke 1 (Some (Err ''disk full'')) \<in> set evs" using run by simp
  note th = Run_task_failure [OF run failed]
  have nm: "task_Name (tasks ?r ! 1) = ''B''"
    by (simp add: demo_runner_def demo_fail_def)
  from th have "res = Inr (Some (Annotatef (Err ''disk full'') (''run task '' @ task_Name (tasks ?r ! 1))))"
    by (rule conjunct2 [THEN conjunct1])
  then have r1: "res = Inr (Some (Annotatef (Err ''disk full'') ''run task B''))"
    unfolding nm by simp
  from th obtain pre where "evs = pre @ [Invoke 1 (Some (Err ''disk full''))]"
    by blast
  then have r2: "last evs = Invoke 1 (Some (Err ''disk full''))" by simp
  from failed r1 r2 run show ?thesis by simp
qed

lemma run_task_success_record:
  assumes run: "run_task js c pf hc uc i t dp env = (res, dp', env', evs)"
    and inv: "Invoke k None \<in> set evs"
  shows "res = Inr None \<and> is_completed dp' (task_Name t)
       \<and> TaskID (fst (map_lookup dp' (task_Name t))) = task_Name t
       \<and> Name (fst (map_lookup dp' (task_Name t))) = task_Name t"
  using run
proof (cases rule: run_task_cases)
  case skip
  with inv show ?thesis by simp
next
  case nilmap
  with inv show ?thesis by (simp add: start_events_def)
next
  case (fail m env2 evs2 w err)
  with inv save_or_warn_no_Invoke [OF fail(3)] show ?thesis
    by (simp add: start_events_def)
next
  case (ok m env2 evs2 w evs5)
  then show ?thesis
    by (simp add: is_completed_def map_lookup_finish_progress started_def)
qed

lemma run_tasks_success_record:
  assumes "run_tasks js c pf hc uc i ts dp env = (res, dp', env', evs)"
    and "ResumeEnabled c" and "Invoke k None \<in> set evs"
  shows "is_completed dp' (task_Name (ts ! (k - i)))
       \<and> TaskID (fst (map_lookup dp' (task_Name (ts ! (k - i))))) = task_Name (ts ! (k - i))
       \<and> Name (fst (map_lookup dp' (task_Name (ts ! (k - i))))) = task_Name (ts ! (k - i))"
  using assms
proof (induction ts arbitrary: i dp env res dp' env' evs)
  case Nil
  then show ?case by simp
next
  case (Cons t rest)
  from Cons.prems(1) show ?case
  proof (cases rule: run_tasks_Cons_cases)
    case stop
    from run_task_success_record [OF stop(1) Cons.prems(3)] stop(2) show ?thesis by simp
  next
    case (continue dp1 env1 evs1 evs2)
    from Cons.prems(3) continue(3)
    consider (1) "Invoke k None \<in> set evs1" | (2) "Invoke k None \<in> set evs2"
      by auto
    then show ?thesis
    proof cases
      case 1
      have k: "k = i" by (rule run_task_Invoke_index [OF continue(1) 1])
      note rec = run_task_success_record [OF continue(1) 1]
      from rec have c1: "is_completed dp1 (task_Name t)" by simp
      have "map_lookup dp' (task_Name t) = map_lookup dp1 (task_Name t)"
        by (rule run_tasks_keeps_lookup [OF continue(2) Cons.prems(2) c1])
      with rec show ?thesis unfolding k by (simp add: is_completed_def)
    next
      case 2
      from run_tasks_Invoke_range [OF continue(2) 2] have "Suc i \<le> k" by simp
      then have nth: "(t # rest) ! (k - i) = rest ! (k - Suc i)"
        by (rule nth_Cons_shift)
      from Cons.IH [OF continue(2) Cons.prems(2) 2] show ?thesis
        unfolding nth .
    qed
  qed
qed

text \<open>
  Claim C10. The key of a record is the name of the task. With resume enabled, a task
  that stands behind a task of the same name in the list is never run; and once the
  earlier task has succeeded, the record found under the name of the later task is the
  completed record of the earlier one, with its name as \<open>TaskID\<close> and \<open>Name\<close>.
\<close>

theorem Run_same_name_skipped:
  assumes run: "Run js r env = (res, r', env', evs)"
    and resume: "ResumeEnabled (cfg r)"
    and order: "i < j" and range: "j < length (tasks r)"
    and same: "task_Name (tasks r ! i) = task_Name (tasks r ! j)"
  shows "(\<forall>res'. Invoke j res' \<notin> set evs)
       \<and> (Invoke i None \<in> set evs \<longrightarrow>
            (\<exists>dp'. Progress r' = Some dp'
               \<and> is_completed dp' (task_Name (tasks r ! j))
               \<and> TaskID (fst (map_lookup dp' (task_Name (tasks r ! j)))) = task_Name (tasks r ! i)
               \<and> Name (fst (map_lookup dp' (task_Name (tasks r ! j)))) = task_Name (tasks r ! i)))"
proof (cases "Progress r")
  case None
  with run have "evs = []" by (simp add: Run_def Let_def)
  then show ?thesis by simp
next
  case (Some dp0)
  have none: "\<forall>res'. Invoke j res' \<notin> set evs"
  proof
    fix res'
    from run Some show "Invoke j res' \<notin> set evs"
    proof (cases rule: Run_cases)
      case (stopped hc uc dp')
      from run_tasks_same_name [OF stopped(1) resume order range same] show ?thesis by simp
    next
      case (finished hc uc dp' env1 evs0 evsd evs2)
      have "Invoke j res' \<notin> set evsd" using finished(6) by auto
      moreover have "Invoke j res' \<notin> set evs2"
        by (rule save_or_warn_no_Invoke [OF finished(4)])
      moreover from run_tasks_same_name [OF finished(1) resume order range same]
      have "Invoke j res' \<notin> set evs0" by simp
      ultimately show ?thesis using finished(5) by simp
    qed
  qed
  have rec: "\<exists>dp'. Progress r' = Some dp'
               \<and> is_completed dp' (task_Name (tasks r ! j))
               \<and> TaskID (fst (map_lookup dp' (task_Name (tasks r ! j)))) = task_Name (tasks r ! i)
               \<and> Name (fst (map_lookup dp' (task_Name (tasks r ! j)))) = task_Name (tasks r ! i)"
    if inv: "Invoke i None \<in> set evs"
    using run Some
  proof (cases rule: Run_cases)
    case (stopped hc uc dp')
    from run_tasks_success_record [OF stopped(1) resume inv] stopped(3) same
    show ?thesis by simp
  next
    case (finished hc uc dp' env1 evs0 evsd evs2)
    have "Invoke i None \<notin> set evsd" using finished(6) by auto
    moreover have "Invoke i None \<notin> set evs2"
      by (rule save_or_warn_no_Invoke [OF finished(4)])
    ultimately have "Invoke i None \<in> set evs0" using inv finished(5) by simp
    from run_tasks_success_record [OF finished(1) resume this] finished(3) same
    show ?thesis by simp
  qed
  from none rec show ?thesis by blast
qed

theorem Run_same_name_skipped_witness:
  "ResumeEnabled (cfg (demo_runner True [demo_ok ''A'', demo_ok ''A'']
      (Some ((demo_progress '''')\<lparr>TaskProgress := Some fmempty\<rparr>))))
   \<and> (0::nat) < 1
   \<and> 1 < length (tasks (demo_runner True [demo_ok ''A'', demo_ok ''A'']
            (Some ((demo_progress '''')\<lparr>TaskProgress := Some fmempty\<rparr>))))
   \<and> task_Name (tasks (demo_runner True [demo_ok ''A'', demo_ok ''A'']
            (Some ((demo_progress '''')\<lparr>TaskProgress := Some fmempty\<rparr>))) ! 0) =
       task_Name (tasks (demo_runner True [demo_ok ''A'', demo_ok ''A'']
            (Some ((demo_progress '''')\<lparr>TaskProgress := Some fmempty\<rparr>))) ! 1)
   \<and> Invoke 0 None \<in> set (snd (snd (snd (Run demo_json
         (demo_runner True [demo_ok ''A'', demo_ok ''A'']
            (Some ((demo_progress '''')\<lparr>TaskProgress := Some fmempty\<rparr>))) demo_env))))
   \<and> Invoke 1 None \<notin> set (snd (snd (snd (Run demo_json
         (demo_runner True [demo_ok ''A'', demo_ok ''A'']
            (Some ((demo_progress '''')\<lparr>TaskProgress := Some fmempty\<rparr>))) demo_env))))
   \<and> world (fst (snd (snd (Run demo_json
         (demo_runner True [demo_ok ''A'', demo_ok ''A'']
            (Some ((demo_progress '''')\<lparr>TaskProgress := Some fmempty\<rparr>))) demo_env)))) = 1"
proof -
  let ?r = "demo_runner True [demo_ok ''A'', demo_ok ''A'']
      (Some ((demo_progress '''')\<lparr>TaskProgress := Some fmempty\<rparr>))"
  obtain res r' env' evs where run: "Run demo_json ?r demo_env = (res, r', env', evs)"
    by (cases "Run demo_json ?r demo_env") auto
  have resume: "ResumeEnabled (cfg ?r)"
    by (simp add: demo_runner_def demo_cfg_def)
  have order: "(0::nat) < 1" by simp
  have range: "1 < length (tasks ?r)"
    by (simp add: demo_runner_def)
  have same: "task_Name (tasks ?r ! 0) = task_Name (tasks ?r ! 1)"
    by (simp add: demo_runner_def)
  have first: "Invoke 0 None \<in> set (snd (snd (snd (Run demo_json ?r demo_env))))"
    and w: "world (fst (snd (snd (Run demo_json ?r demo_env)))) = 1"
    by (simp_all add: demo_defs Run_eval)
  from Run_same_name_skipped [OF run resume order range same]
  have "Invoke 1 None \<notin> set evs" by blast
  then have "Invoke 1 None \<notin> set (snd (snd (snd (Run demo_json ?r demo_env))))"
    using run by simp
  with resume order range same first w show ?thesis by simp
qed

end
